theory Spec2Isabelle
  imports Main
begin

section \<open>Data model\<close>

text \<open>
  A Go \<^verbatim>\<open>[]byte\<close> is a list of 8-bit characters. The \<^verbatim>\<open>nil\<close> slice and the empty
  slice are both the empty list, except for the elements returned by \<^verbatim>\<open>parseArray\<close>,
  where the source assigns \<^verbatim>\<open>nil\<close> on purpose (the SQL NULL): there an element is a
  \<open>bytes option\<close> and \<open>None\<close> is \<^verbatim>\<open>nil\<close>.
\<close>

type_synonym bytes = "char list"

abbreviation dquote :: char where "dquote \<equiv> CHR 0x22"
abbreviation bslash :: char where "bslash \<equiv> CHR 0x5C"

text \<open>The two errors a \<^verbatim>\<open>bytes.Reader\<close> can report.\<close>

datatype rerr = EOF | NegativePosition

text \<open>
  The errors the package builds with \<^verbatim>\<open>fmt.Errorf\<close>, one constructor per format string,
  with the arguments of the format:
  \<^item> \<open>TypeExpected c n\<close>: \<^verbatim>\<open>unable to parse type, expected %q at offset %d\<close>;
  \<^item> \<open>ArrayExpected c n\<close>: \<^verbatim>\<open>pq: unable to parse array; expected %q at offset %d\<close>;
  \<^item> \<open>ArrayUnexpected c n\<close>: \<^verbatim>\<open>pq: unable to parse array; unexpected %q at offset %d\<close>;
  \<^item> \<open>MismatchedDimensions\<close>:
    \<^verbatim>\<open>pq: multidimensional arrays must have elements with matching dimensions\<close>;
  \<^item> \<open>CannotConvert shape typ\<close>: \<^verbatim>\<open>pq: cannot convert ARRAY%s to %s\<close>;
  \<^item> \<open>ReadError e\<close>: an error of the reader handed on unchanged.
\<close>

datatype error =
    TypeExpected char nat
  | ArrayExpected char nat
  | ArrayUnexpected char nat
  | MismatchedDimensions
  | CannotConvert string string
  | ReadError rerr

text \<open>
  The runtime panics the code can raise: an index outside a slice (the index and the
  length), an integer division by zero, and the explicit \<^verbatim>\<open>panic(err)\<close> of \<^verbatim>\<open>Peek\<close>.
\<close>

datatype panic = IndexOutOfRange int nat | DivideByZero | PeekPanic rerr

text \<open>A call returns a value, returns an error, or panics.\<close>

datatype 'a result = Ok 'a | Err error | Panic panic

section \<open>\<^verbatim>\<open>AppendArrayQuotedBytes\<close>\<close>

text \<open>
  \<^verbatim>\<open>bytes.IndexAny(s, chars)\<close> for a set of ASCII characters: the index of the first byte of
  \<open>s\<close> that is one of \<open>chars\<close>, or \<open>-1\<close>.
\<close>

fun IndexAny :: "bytes \<Rightarrow> bytes \<Rightarrow> int" where
  "IndexAny [] chars = -1"
| "IndexAny (c # s) chars =
     (if c \<in> set chars then 0
      else (let j = IndexAny s chars in if j < 0 then -1 else j + 1))"

lemma IndexAny_range: "IndexAny v chars < int (length v)"
  by (induction v) (auto simp: Let_def)

lemma IndexAny_lower: "- 1 \<le> IndexAny v chars"
  by (induction v) (auto simp: Let_def)

text \<open>The \<^verbatim>\<open>for\<close> loop of \<^verbatim>\<open>AppendArrayQuotedBytes\<close>; it returns \<open>b\<close> at the \<^verbatim>\<open>break\<close>.\<close>

function escape_loop :: "bytes \<Rightarrow> bytes \<Rightarrow> bytes" where
  "escape_loop b v =
     (let i = IndexAny v [dquote, bslash] in
      if i < 0 then b @ v
      else
        (let b1 = (if i > 0 then b @ take (nat i) v else b);
             b2 = b1 @ [bslash, v ! nat i]
         in escape_loop b2 (drop (nat i + 1) v)))"
  by pat_completeness auto
termination
proof (relation "measure (\<lambda>(b, v). length v)")
  show "wf (measure (\<lambda>(b, v). length v))" by simp
next
  fix b v :: bytes and x :: int and xa xb :: bytes
  assume "x = IndexAny v [dquote, bslash]" and "\<not> x < 0"
  with IndexAny_range [of v "[dquote, bslash]"]
  show "((xb, drop (nat x + 1) v), b, v) \<in> measure (\<lambda>(b, v). length v)"
    by auto
qed

declare escape_loop.simps [simp del]

definition AppendArrayQuotedBytes :: "bytes \<Rightarrow> bytes \<Rightarrow> bytes" where
  "AppendArrayQuotedBytes b v = escape_loop (b @ [dquote]) v @ [dquote]"

section \<open>\<^verbatim>\<open>parseArray\<close>\<close>

text \<open>\<^verbatim>\<open>bytes.HasPrefix\<close>.\<close>

definition HasPrefix :: "bytes \<Rightarrow> bytes \<Rightarrow> bool" where
  "HasPrefix s p = (length p \<le> length s \<and> take (length p) s = p)"

text \<open>
  What one of the two inner scanning loops of the \<^verbatim>\<open>Element\<close> phase does: it appends an
  element and leaves by \<^verbatim>\<open>break Element\<close> at an offset, it returns an error, or it runs
  to the end of the input without having appended anything.
\<close>

datatype 'a scan = Found 'a nat | Failed error | Exhausted nat

text \<open>
  The loop of the \<^verbatim>\<open>case '"'\<close> branch, entered after \<^verbatim>\<open>i++\<close> with an empty \<open>elem\<close> and
  \<open>escape = false\<close>.
\<close>

function quoted_loop :: "bytes \<Rightarrow> nat \<Rightarrow> bytes \<Rightarrow> bool \<Rightarrow> bytes scan" where
  "quoted_loop src i elem escape =
     (if i < length src then
        (if escape then quoted_loop src (i + 1) (elem @ [src ! i]) False
         else if src ! i = bslash then quoted_loop src (i + 1) elem True
         else if src ! i = dquote then Found elem (i + 1)
         else quoted_loop src (i + 1) (elem @ [src ! i]) False)
      else Exhausted i)"
  by pat_completeness auto
termination
  by (relation "measure (\<lambda>(src, i, elem, escape). length src - i)") auto

declare quoted_loop.simps [simp del]

text \<open>
  The loop of the \<^verbatim>\<open>default\<close> branch, entered with \<open>start = i\<close>. The element is
  \<^verbatim>\<open>src[start:i]\<close>, replaced by \<^verbatim>\<open>nil\<close> when it is \<^verbatim>\<open>NULL\<close>.
\<close>

function unquoted_loop :: "bytes \<Rightarrow> bytes \<Rightarrow> nat \<Rightarrow> nat \<Rightarrow> bytes option scan" where
  "unquoted_loop src del start i =
     (if i < length src then
        (if HasPrefix (drop i src) del \<or> src ! i = CHR ''}'' then
           (let elem = take (i - start) (drop start src) in
            if length elem = 0 then Failed (ArrayUnexpected (src ! i) i)
            else Found (if elem = ''NULL'' then None else Some elem) i)
         else unquoted_loop src del start (i + 1))
      else Exhausted i)"
  by pat_completeness auto
termination
  by (relation "measure (\<lambda>(src, del, start, i). length src - i)") auto

declare unquoted_loop.simps [simp del]

text \<open>The \<^verbatim>\<open>Open\<close> loop: it ends by \<^verbatim>\<open>goto Close\<close> or by leaving the loop.\<close>

datatype opened = GotoClose nat nat | LeftOpen nat nat

function Open_loop :: "bytes \<Rightarrow> nat \<Rightarrow> nat \<Rightarrow> opened" where
  "Open_loop src depth i =
     (if i < length src then
        (if src ! i = CHR ''{'' then Open_loop src (depth + 1) (i + 1)
         else if src ! i = CHR ''}'' then GotoClose depth i
         else LeftOpen depth i)
      else LeftOpen depth i)"
  by pat_completeness auto
termination
  by (relation "measure (\<lambda>(src, depth, i). length src - i)") auto

declare Open_loop.simps [simp del]

text \<open>
  The final loop over \<open>dims\<close>: it goes on after a mismatch, and \<^verbatim>\<open>len(elems) % d\<close> panics
  when \<open>d\<close> is zero. \<open>err\<close> is the error so far.
\<close>

fun check_dims :: "nat list \<Rightarrow> nat \<Rightarrow> error option \<Rightarrow> error option result" where
  "check_dims [] n err = Ok err"
| "check_dims (d # ds) n err =
     (if d = 0 then Panic DivideByZero
      else if n mod d \<noteq> 0 then check_dims ds n (Some MismatchedDimensions)
      else check_dims ds n err)"

text \<open>
  The \<^verbatim>\<open>Close\<close> loop and the code after it. The source returns \<open>dims\<close> and \<open>elems\<close> beside
  a non-nil \<open>err\<close> here; callers drop them (as \<^verbatim>\<open>ScanLinearArray\<close> does), and so does the
  model.
\<close>

function Close_loop ::
  "bytes \<Rightarrow> nat \<Rightarrow> nat \<Rightarrow> nat list \<Rightarrow> bytes option list \<Rightarrow> (nat list \<times> bytes option list) result"
where
  "Close_loop src depth i dims elems =
     (if i < length src then
        (if src ! i = CHR ''}'' \<and> depth > 0 then Close_loop src (depth - 1) (i + 1) dims elems
         else Err (ArrayUnexpected (src ! i) i))
      else if depth > 0 then Err (ArrayExpected (CHR ''}'') i)
      else
        (case check_dims dims (length elems) None of
           Panic p \<Rightarrow> Panic p
         | Err e \<Rightarrow> Err e
         | Ok (Some e) \<Rightarrow> Err e
         | Ok None \<Rightarrow> Ok (dims, elems)))"
  by pat_completeness auto
termination
  by (relation "measure (\<lambda>(src, depth, i, dims, elems). length src - i)") auto

declare Close_loop.simps [simp del]

text \<open>
  The index expression \<^verbatim>\<open>dims[depth-1]\<close>: \<open>depth\<close> is a Go \<^verbatim>\<open>int\<close>, never negative here
  (it is only decremented after this index has been checked, or under \<^verbatim>\<open>depth > 0\<close>), so it
  is a \<open>nat\<close> and the index \<open>-1\<close> of \<open>depth = 0\<close> is written out.
\<close>

definition dims_index :: "nat list \<Rightarrow> nat \<Rightarrow> panic + nat" where
  "dims_index dims depth =
     (if depth = 0 \<or> length dims \<le> depth - 1
      then Inl (IndexOutOfRange (int depth - 1) (length dims))
      else Inr (depth - 1))"

lemma quoted_loop_Found_gt: "quoted_loop src i elem escape = Found e j \<Longrightarrow> i < j \<and> j \<le> length src"
  by (induction src i elem escape rule: quoted_loop.induct)
     (subst (asm) quoted_loop.simps, auto split: if_splits)

lemma quoted_loop_Exhausted_ge: "quoted_loop src i elem escape = Exhausted j \<Longrightarrow> i \<le> j \<and> length src \<le> j"
  by (induction src i elem escape rule: quoted_loop.induct)
     (subst (asm) quoted_loop.simps, auto split: if_splits)

lemma unquoted_loop_Found_gt: "unquoted_loop src del start i = Found e j \<Longrightarrow> start < j \<and> i \<le> j \<and> j < length src"
  by (induction src del start i rule: unquoted_loop.induct)
     (subst (asm) unquoted_loop.simps, auto simp: Let_def split: if_splits)

lemma unquoted_loop_Exhausted_ge: "unquoted_loop src del start i = Exhausted j \<Longrightarrow> i \<le> j \<and> length src \<le> j"
  by (induction src del start i rule: unquoted_loop.induct)
     (subst (asm) unquoted_loop.simps, auto simp: Let_def split: if_splits)

text \<open>
  The \<^verbatim>\<open>Element\<close> loop and the loop after it (delimiter or close), which jumps back by
  \<^verbatim>\<open>goto Element\<close>. Leaving the \<^verbatim>\<open>Element\<close> loop, by \<^verbatim>\<open>break Element\<close> or at the end of
  the input, enters the second loop; leaving the second loop enters \<^verbatim>\<open>Close\<close>.
\<close>

function Element_loop ::
  "bytes \<Rightarrow> bytes \<Rightarrow> nat \<Rightarrow> nat \<Rightarrow> nat list \<Rightarrow> bytes option list \<Rightarrow> (nat list \<times> bytes option list) result"
and Delim_loop ::
  "bytes \<Rightarrow> bytes \<Rightarrow> nat \<Rightarrow> nat \<Rightarrow> nat list \<Rightarrow> bytes option list \<Rightarrow> (nat list \<times> bytes option list) result"
where
  "Element_loop src del depth i dims elems =
     (if i < length src then
        (if src ! i = CHR ''{'' then
           (case dims_index dims (depth + 1) of
              Inl p \<Rightarrow> Panic p
            | Inr k \<Rightarrow> Element_loop src del (depth + 1) (i + 1) (dims[k := 0]) elems)
         else if src ! i = dquote then
           (case quoted_loop src (i + 1) [] False of
              Found elem j \<Rightarrow> Delim_loop src del depth j dims (elems @ [Some elem])
            | Failed e \<Rightarrow> Err e
            | Exhausted j \<Rightarrow> Delim_loop src del depth j dims elems)
         else
           (case unquoted_loop src del i i of
              Found elem j \<Rightarrow> Delim_loop src del depth j dims (elems @ [elem])
            | Failed e \<Rightarrow> Err e
            | Exhausted j \<Rightarrow> Delim_loop src del depth j dims elems))
      else Delim_loop src del depth i dims elems)"
| "Delim_loop src del depth i dims elems =
     (if i < length src then
        (if HasPrefix (drop i src) del then
           (case dims_index dims depth of
              Inl p \<Rightarrow> Panic p
            | Inr k \<Rightarrow> Element_loop src del depth (i + length del) (dims[k := dims ! k + 1]) elems)
         else if src ! i = CHR ''}'' then
           (case dims_index dims depth of
              Inl p \<Rightarrow> Panic p
            | Inr k \<Rightarrow> Delim_loop src del (depth - 1) (i + 1) (dims[k := dims ! k + 1]) elems)
         else Err (ArrayUnexpected (src ! i) i))
      else Close_loop src depth i dims elems)"
  by pat_completeness auto
termination
proof (relation "measure (\<lambda>x. case x of
           Inl (src, del, depth, i, dims, elems) \<Rightarrow> (if i < length src then 2 * (length src - i) else 1)
         | Inr (src, del, depth, i, dims, elems) \<Rightarrow> (if i < length src then 2 * (length src - i) + 1 else 0))",
       goal_cases)
  case 1
  show ?case by simp
next
  case 2
  then show ?case by auto
next
  case (3 src del depth i dims elems elem j)
  from quoted_loop_Found_gt [OF 3(4)] 3(1) show ?case by auto
next
  case (4 src del depth i dims elems j)
  from quoted_loop_Exhausted_ge [OF 4(4)] 4(1) show ?case by auto
next
  case (5 src del depth i dims elems elem j)
  from unquoted_loop_Found_gt [OF 5(4)] 5(1) show ?case by auto
next
  case (6 src del depth i dims elems j)
  from unquoted_loop_Exhausted_ge [OF 6(4)] 6(1) show ?case by auto
next
  case 7
  then show ?case by auto
next
  case 8
  then show ?case by auto
next
  case 9
  then show ?case by auto
qed

declare Element_loop.simps [simp del]
declare Delim_loop.simps [simp del]

text \<open>\<^verbatim>\<open>parseArray\<close>: the guard, the \<^verbatim>\<open>Open\<close> loop, and \<^verbatim>\<open>dims = make([]int, i)\<close> unless the
  \<^verbatim>\<open>Open\<close> loop left by \<^verbatim>\<open>goto Close\<close>, where \<open>dims\<close> stays \<^verbatim>\<open>nil\<close>.\<close>

definition parseArray :: "bytes \<Rightarrow> bytes \<Rightarrow> (nat list \<times> bytes option list) result" where
  "parseArray src del =
     (if length src < 1 \<or> src ! 0 \<noteq> CHR ''{'' then Err (ArrayExpected (CHR ''{'') 0)
      else
        (case Open_loop src 0 0 of
           GotoClose depth i \<Rightarrow> Close_loop src depth i [] []
         | LeftOpen depth i \<Rightarrow> Element_loop src del depth i (replicate i 0) []))"

section \<open>\<^verbatim>\<open>ScanLinearArray\<close>\<close>

text \<open>
  \<^verbatim>\<open>fmt.Sprint\<close> of a slice of (here non-negative) integers: the decimal numerals
  separated by one space, in square brackets.
\<close>

fun show_nat :: "nat \<Rightarrow> string" where
  "show_nat n =
     (if n < 10 then [char_of (48 + n)]
      else show_nat (n div 10) @ [char_of (48 + n mod 10)])"

declare show_nat.simps [simp del]

fun Sprint_elems :: "nat list \<Rightarrow> string" where
  "Sprint_elems [] = []"
| "Sprint_elems [d] = show_nat d"
| "Sprint_elems (d # e # ds) = show_nat d @ '' '' @ Sprint_elems (e # ds)"

definition Sprint :: "nat list \<Rightarrow> string" where
  "Sprint dims = ''['' @ Sprint_elems dims @ '']''"

text \<open>\<^verbatim>\<open>strings.Replace(s, old, new, -1)\<close> for a one-byte \<open>old\<close>.\<close>

fun Replace :: "string \<Rightarrow> char \<Rightarrow> string \<Rightarrow> string" where
  "Replace [] old new = []"
| "Replace (c # cs) old new = (if c = old then new else [c]) @ Replace cs old new"

definition ScanLinearArray :: "bytes \<Rightarrow> bytes \<Rightarrow> string \<Rightarrow> bytes option list result" where
  "ScanLinearArray src del typ =
     (case parseArray src del of
        Panic p \<Rightarrow> Panic p
      | Err e \<Rightarrow> Err e
      | Ok (dims, elems) \<Rightarrow>
          (if length dims > 1
           then Err (CannotConvert (Replace (Sprint dims) (CHR '' '') '']['') typ)
           else Ok elems))"

section \<open>\<^verbatim>\<open>SplitBytes\<close>\<close>

text \<open>
  A \<^verbatim>\<open>bytes.Reader\<close>: the bytes and the reading position. \<^verbatim>\<open>ReadByte\<close> returns
  \<^verbatim>\<open>(0, io.EOF)\<close> at the end and does not move; \<^verbatim>\<open>Seek(-1, io.SeekCurrent)\<close> fails on a
  negative position and moves one byte back otherwise.
\<close>

record Reader =
  buf :: bytes
  pos :: nat

definition NewReader :: "bytes \<Rightarrow> Reader" where
  "NewReader b = \<lparr>buf = b, pos = 0\<rparr>"

definition ReadByte :: "Reader \<Rightarrow> (char \<times> rerr option) \<times> Reader" where
  "ReadByte r =
     (if pos r \<ge> length (buf r) then ((CHR 0x00, Some EOF), r)
      else ((buf r ! pos r, None), r\<lparr>pos := pos r + 1\<rparr>))"

definition Seek_back :: "Reader \<Rightarrow> rerr option \<times> Reader" where
  "Seek_back r =
     (if int (pos r) - 1 < 0 then (Some NegativePosition, r)
      else (None, r\<lparr>pos := pos r - 1\<rparr>))"

text \<open>The two methods of \<^verbatim>\<open>scanner\<close>. \<^verbatim>\<open>Peek\<close> returns the error of \<^verbatim>\<open>Seek\<close>, which is
  \<^verbatim>\<open>nil\<close> when it returns at all, and not the error of \<^verbatim>\<open>ReadByte\<close>.\<close>

definition Next :: "Reader \<Rightarrow> (char \<times> rerr option) \<times> Reader" where
  "Next r = ReadByte r"

definition Peek :: "Reader \<Rightarrow> (panic + char \<times> rerr option) \<times> Reader" where
  "Peek r =
     (case ReadByte r of
        ((b, err), r1) \<Rightarrow>
          (case Seek_back r1 of
             (Some e, r2) \<Rightarrow> (Inl (PeekPanic e), r2)
           | (None, r2) \<Rightarrow> (Inr (b, None), r2)))"

text \<open>
  One iteration of the \<^verbatim>\<open>for\<close> loop of \<^verbatim>\<open>SplitBytes\<close> after the test of \<open>depth\<close>: it
  returns from the function (\<open>Inl\<close>), or it ends with new values of the reader and of
  \<open>chunks\<close>, \<open>elem\<close>, \<open>prev\<close>, \<open>depth\<close> and \<open>quoted\<close> (\<open>Inr\<close>). The \<^verbatim>\<open>break\<close> of the
  doubled quote leaves the \<^verbatim>\<open>switch\<close>, so \<^verbatim>\<open>prev = b\<close> is run on every path. \<open>depth\<close> is
  only decremented when it is not zero, so it is a \<open>nat\<close>.
\<close>

type_synonym locals = "Reader \<times> bytes list \<times> bytes \<times> char \<times> nat \<times> bool"

definition SplitBytes_body ::
  "Reader \<Rightarrow> bytes list \<Rightarrow> bytes \<Rightarrow> char \<Rightarrow> nat \<Rightarrow> bool \<Rightarrow> bytes list result + locals"
where
  "SplitBytes_body r chunks elem prev depth quoted =
     (case Next r of
        ((b, err), r1) \<Rightarrow>
          if err \<noteq> None \<and> err \<noteq> Some EOF then Inl (Err (ReadError (the err)))
          else if b = CHR '')'' then
            (if \<not> quoted then Inr (r1, chunks @ [elem], elem, b, depth - 1, quoted)
             else Inr (r1, chunks, elem @ [b], b, depth, quoted))
          else if b = dquote then
            (case Peek r1 of
               (Inl p, r2) \<Rightarrow> Inl (Panic p)
             | (Inr (by, err2), r2) \<Rightarrow>
                 if err2 = None \<and> by = dquote then
                   (case Next r2 of
                      (x, r3) \<Rightarrow> Inr (r3, chunks, elem @ [b], b, depth, quoted))
                 else if prev \<noteq> bslash then Inr (r2, chunks, elem, b, depth, \<not> quoted)
                 else Inr (r2, chunks, elem @ [b], b, depth, quoted))
          else if b = CHR '','' then
            (if \<not> quoted then Inr (r1, chunks @ [elem], [], b, depth, quoted)
             else Inr (r1, chunks, elem @ [b], b, depth, quoted))
          else Inr (r1, chunks, elem @ [b], b, depth, quoted))"

text \<open>The loop: it need not end, so a call that does not return has the value \<open>None\<close>.\<close>

partial_function (option) SplitBytes_loop ::
  "Reader \<Rightarrow> bytes list \<Rightarrow> bytes \<Rightarrow> char \<Rightarrow> nat \<Rightarrow> bool \<Rightarrow> bytes list result option"
where
  "SplitBytes_loop r chunks elem prev depth quoted =
     (if depth = 0 then Some (Ok chunks)
      else
        (case SplitBytes_body r chunks elem prev depth quoted of
           Inl res \<Rightarrow> Some res
         | Inr (r', chunks', elem', prev', depth', quoted') \<Rightarrow>
             SplitBytes_loop r' chunks' elem' prev' depth' quoted'))"

declare SplitBytes_loop.simps [code]

definition SplitBytes :: "bytes \<Rightarrow> bytes list result option" where
  "SplitBytes src =
     (if length src < 1 \<or> src ! 0 \<noteq> CHR ''('' then Some (Err (TypeExpected (CHR ''('') 0))
      else SplitBytes_loop (NewReader (drop 1 src)) [] [] (CHR 0x00) 1 False)"

section \<open>Array literals\<close>

text \<open>
  The definitions of this section are not part of the program: they describe inputs and
  expected results, for the statements that follow.

  The bytes \<^verbatim>\<open>AppendArrayQuotedBytes\<close> writes between the two quotes, in closed form: a
  backslash before every double quote and every backslash.
\<close>

fun escaped :: "bytes \<Rightarrow> bytes" where
  "escaped [] = []"
| "escaped (c # cs) = (if c = dquote \<or> c = bslash then [bslash, c] else [c]) @ escaped cs"

text \<open>
  An array literal as a tree: a leaf is the unquoted token \<^verbatim>\<open>NULL\<close>, an unquoted element,
  or a quoted element given by its value; a node is a brace-enclosed list of literals.
\<close>

datatype lit = Null | Plain bytes | Quoted bytes | Arr "lit list"

text \<open>
  The bytes an unquoted element may have: at least one, not the four bytes \<^verbatim>\<open>NULL\<close>, no
  comma and no closing brace anywhere, and neither an opening brace nor a double quote
  in front.
\<close>

definition plain :: "bytes \<Rightarrow> bool" where
  "plain e = (e \<noteq> [] \<and> e \<noteq> ''NULL'' \<and> hd e \<noteq> CHR ''{'' \<and> hd e \<noteq> dquote \<and>
              list_all (\<lambda>c. c \<noteq> CHR '','' \<and> c \<noteq> CHR ''}'') e)"

text \<open>
  The text of a literal, with the comma as delimiter and quoted elements written by
  \<^verbatim>\<open>AppendArrayQuotedBytes\<close>; its elements from left to right, \<open>None\<close> for \<^verbatim>\<open>NULL\<close>.
\<close>

fun render :: "lit \<Rightarrow> bytes" where
  "render Null = ''NULL''"
| "render (Plain e) = e"
| "render (Quoted v) = AppendArrayQuotedBytes [] v"
| "render (Arr []) = ''{}''"
| "render (Arr (x # xs)) = ''{'' @ render x @ concat (map (\<lambda>y. CHR '','' # render y) xs) @ ''}''"

fun flat :: "lit \<Rightarrow> bytes option list" where
  "flat Null = [None]"
| "flat (Plain e) = [Some e]"
| "flat (Quoted v) = [Some v]"
| "flat (Arr xs) = concat (map flat xs)"

text \<open>
  \<open>shaped ds x\<close>: the literal \<open>x\<close> is rectangular with the dimensions \<open>ds\<close>, the outermost
  first: every node at nesting level \<open>k\<close> has \<open>ds ! k\<close> children, none is empty, and all
  leaves are at the level \<open>length ds\<close>.
\<close>

fun shaped :: "nat list \<Rightarrow> lit \<Rightarrow> bool" where
  "shaped [] Null = True"
| "shaped [] (Plain e) = plain e"
| "shaped [] (Quoted v) = True"
| "shaped [] (Arr xs) = False"
| "shaped (d # ds) (Arr xs) = (0 < d \<and> length xs = d \<and> list_all (shaped ds) xs)"
| "shaped (d # ds) x = False"

text \<open>
  The text of a literal behind its leading opening braces, and the text of the siblings
  that follow a first child, each behind its comma.
\<close>

fun unbraced :: "lit \<Rightarrow> bytes" where
  "unbraced (Arr (x # xs)) = unbraced x @ concat (map (\<lambda>y. CHR '','' # render y) xs) @ ''}''"
| "unbraced x = render x"

abbreviation sib :: "lit list \<Rightarrow> bytes" where
  "sib ys \<equiv> concat (map (\<lambda>y. CHR '','' # render y) ys)"

section \<open>Composite literals\<close>

text \<open>
  As in the last section, these definitions are not part of the program: they describe
  inputs and expected results.

  A field of a composite literal, unquoted or quoted, given by the bytes it is written
  with (for a quoted field, the bytes between the two quotes); the text of a field and of
  a composite literal.
\<close>

datatype field = Bare bytes | InQuotes bytes

fun field_text :: "field \<Rightarrow> bytes" where
  "field_text (Bare f) = f"
| "field_text (InQuotes v) = dquote # v @ [dquote]"

fun composite :: "field list \<Rightarrow> bytes" where
  "composite [] = ''()''"
| "composite (f # fs) = ''('' @ field_text f @ concat (map (\<lambda>g. CHR '','' # field_text g) fs) @ '')''"

text \<open>
  The well-formed fields: an unquoted field has no comma, no closing parenthesis and no
  double quote; between the quotes of a quoted field, a backslash is followed by a byte
  (any byte, taken literally), and a double quote that no backslash precedes is followed
  by a second one.
\<close>

fun quoted_content :: "bytes \<Rightarrow> bool" where
  "quoted_content [] = True"
| "quoted_content [c] = (c \<noteq> bslash \<and> c \<noteq> dquote)"
| "quoted_content (c # d # cs) =
     (if c = bslash then quoted_content cs
      else if c = dquote then d = dquote \<and> quoted_content cs
      else quoted_content (d # cs))"

fun wellformed :: "field \<Rightarrow> bool" where
  "wellformed (Bare f) = list_all (\<lambda>c. c \<noteq> CHR '','' \<and> c \<noteq> CHR '')'' \<and> c \<noteq> dquote) f"
| "wellformed (InQuotes v) = quoted_content v"

text \<open>
  The fields \<^verbatim>\<open>SplitBytes\<close> is shown to read in full: the unquoted ones as above, and the
  quoted ones whose content is not empty, has no double quote and does not end in a
  backslash. The field returned for such a field is its bytes, without the quotes.
\<close>

fun field_ok :: "field \<Rightarrow> bool" where
  "field_ok (Bare f) = list_all (\<lambda>c. c \<noteq> CHR '','' \<and> c \<noteq> CHR '')'' \<and> c \<noteq> dquote) f"
| "field_ok (InQuotes v) = (v \<noteq> [] \<and> list_all (\<lambda>c. c \<noteq> dquote) v \<and> last v \<noteq> bslash)"

fun field_value :: "field \<Rightarrow> bytes" where
  "field_value (Bare f) = f"
| "field_value (InQuotes v) = v"

section \<open>Lemmas\<close>

lemma IndexAny_neg: "IndexAny v cs < 0 \<Longrightarrow> set v \<inter> set cs = {}"
  by (induction v) (auto simp: Let_def split: if_splits)

lemma IndexAny_nonneg:
  "0 \<le> IndexAny v cs \<Longrightarrow>
     nat (IndexAny v cs) < length v \<and> v ! nat (IndexAny v cs) \<in> set cs \<and>
     set (take (nat (IndexAny v cs)) v) \<inter> set cs = {}"
proof (induction v)
  case Nil
  then show ?case by simp
next
  case (Cons c v)
  show ?case
  proof (cases "c \<in> set cs")
    case True
    then show ?thesis by simp
  next
    case False
    with Cons.prems have nn: "0 \<le> IndexAny v cs" and eq: "IndexAny (c # v) cs = IndexAny v cs + 1"
      by (auto simp: Let_def split: if_splits)
    from nn have n: "nat (IndexAny v cs + 1) = Suc (nat (IndexAny v cs))" by simp
    from Cons.IH [OF nn] False show ?thesis unfolding eq n by auto
  qed
qed

lemma escaped_plain: "set v \<inter> {dquote, bslash} = {} \<Longrightarrow> escaped v = v"
  by (induction v) auto

lemma escaped_append: "escaped (a @ b) = escaped a @ escaped b"
  by (induction a) auto

lemma escape_loop_escaped: "escape_loop b v = b @ escaped v"
proof (induction b v rule: escape_loop.induct)
  case (1 b v)
  let ?i = "IndexAny v [dquote, bslash]"
  show ?case
  proof (cases "?i < 0")
    case True
    from IndexAny_neg [OF True] have "escaped v = v" by (intro escaped_plain) auto
    with True show ?thesis by (subst escape_loop.simps) (simp add: Let_def)
  next
    case False
    then have nn: "0 \<le> ?i" by simp
    define k where "k = nat ?i"
    from IndexAny_nonneg [OF nn]
    have k: "k < length v" and sp: "v ! k = dquote \<or> v ! k = bslash"
      and pl: "set (take k v) \<inter> {dquote, bslash} = {}"
      unfolding k_def by auto
    have v: "v = take k v @ v ! k # drop (Suc k) v"
      using k by (rule id_take_nth_drop)
    have "escaped v = escaped (take k v) @ escaped (v ! k # drop (Suc k) v)"
      by (subst v) (simp only: escaped_append)
    also have "\<dots> = take k v @ [bslash, v ! k] @ escaped (drop (Suc k) v)"
      using sp escaped_plain [OF pl] by auto
    finally have e: "escaped v = take k v @ [bslash, v ! k] @ escaped (drop (Suc k) v)" .
    have "escape_loop b v =
        escape_loop ((if ?i > 0 then b @ take k v else b) @ [bslash, v ! k]) (drop (k + 1) v)"
      using False by (subst escape_loop.simps) (simp add: Let_def k_def)
    also have "\<dots> = ((if ?i > 0 then b @ take k v else b) @ [bslash, v ! k]) @ escaped (drop (k + 1) v)"
      using "1.IH" [OF refl False refl refl] unfolding k_def by simp
    also have "(if ?i > 0 then b @ take k v else b) = b @ take k v"
      unfolding k_def by auto
    finally show ?thesis using e by simp
  qed
qed

lemma quoted_loop_escaped:
  "quoted_loop (pre @ escaped v @ dquote # rest) (length pre) elem False =
     Found (elem @ v) (length pre + length (escaped v) + 1)"
proof (induction v arbitrary: pre elem)
  case Nil
  show ?case by (subst quoted_loop.simps) simp
next
  case (Cons c v)
  show ?case
  proof (cases "c = dquote \<or> c = bslash")
    case True
    have "quoted_loop (pre @ escaped (c # v) @ dquote # rest) (length pre) elem False =
          quoted_loop (pre @ escaped (c # v) @ dquote # rest) (length pre + 1) elem True"
      using True by (subst quoted_loop.simps) (simp add: nth_append)
    also have "\<dots> = quoted_loop (pre @ escaped (c # v) @ dquote # rest) (length pre + 2) (elem @ [c]) False"
      using True by (subst quoted_loop.simps) (simp add: nth_append)
    also have "\<dots> = quoted_loop ((pre @ [bslash, c]) @ escaped v @ dquote # rest)
                         (length (pre @ [bslash, c])) (elem @ [c]) False"
      using True by simp
    also have "\<dots> = Found ((elem @ [c]) @ v) (length (pre @ [bslash, c]) + length (escaped v) + 1)"
      by (rule Cons.IH)
    finally show ?thesis using True by simp
  next
    case False
    have "quoted_loop (pre @ escaped (c # v) @ dquote # rest) (length pre) elem False =
          quoted_loop (pre @ escaped (c # v) @ dquote # rest) (length pre + 1) (elem @ [c]) False"
      using False by (subst quoted_loop.simps) (simp add: nth_append)
    also have "\<dots> = quoted_loop ((pre @ [c]) @ escaped v @ dquote # rest)
                         (length (pre @ [c])) (elem @ [c]) False"
      using False by simp
    also have "\<dots> = Found ((elem @ [c]) @ v) (length (pre @ [c]) + length (escaped v) + 1)"
      by (rule Cons.IH)
    finally show ?thesis using False by simp
  qed
qed

lemma AppendArrayQuotedBytes_escaped:
  "AppendArrayQuotedBytes b v = b @ [dquote] @ escaped v @ [dquote]"
  by (simp add: AppendArrayQuotedBytes_def escape_loop_escaped)

lemma quoted_fragment:
  "quoted_loop (AppendArrayQuotedBytes b v @ rest) (length b + 1) [] False =
     Found v (length (AppendArrayQuotedBytes b v))"
  using quoted_loop_escaped [of "b @ [dquote]" v rest "[]"]
  by (simp add: AppendArrayQuotedBytes_escaped)

lemma parse_fragment:
  "parseArray (AppendArrayQuotedBytes ''{'' v @ ''}'') '','' = Ok ([1], [Some v])"
proof -
  define src where "src = AppendArrayQuotedBytes ''{'' v @ ''}''"
  define n where "n = Suc (Suc (Suc (length (escaped v))))"
  have src: "src = CHR ''{'' # dquote # escaped v @ [dquote, CHR ''}'']"
    by (simp add: src_def AppendArrayQuotedBytes_escaped)
  have len: "length src = Suc n" by (simp add: src n_def)
  have o: "Open_loop src 0 0 = LeftOpen 1 1"
    by (subst Open_loop.simps, simp add: src, subst Open_loop.simps, simp)
  have q: "quoted_loop src (Suc (Suc 0)) [] False = Found v n"
    using quoted_fragment [of "''{''" v "''}''"]
    by (simp add: src_def AppendArrayQuotedBytes_escaped n_def)
  have last: "src ! n = CHR ''}''"
    by (simp add: src nth_append n_def)
  have dr: "drop n src = ''}''"
    by (simp add: src n_def)
  have e: "Element_loop src '','' 1 1 [0] [] = Delim_loop src '','' 1 n [0] [Some v]"
    using q by (subst Element_loop.simps) (simp add: src)
  have d1: "Delim_loop src '','' 1 n [0] [Some v] = Delim_loop src '','' 0 (Suc n) [1] [Some v]"
    using last dr by (subst Delim_loop.simps) (simp add: len HasPrefix_def dims_index_def)
  have d2: "Delim_loop src '','' 0 (Suc n) [1] [Some v] = Ok ([1], [Some v])"
    by (subst Delim_loop.simps, simp add: len, subst Close_loop.simps, simp add: len)
  show ?thesis
    unfolding src_def [symmetric] parseArray_def
    using o e d1 d2 by (simp add: src)
qed

lemma check_dims_Ok:
  "check_dims ds n err = Ok None \<Longrightarrow> err = None \<and> (\<forall>d\<in>set ds. 0 < d \<and> n mod d = 0)"
  by (induction ds arbitrary: err) (auto split: if_splits)

lemma check_dims_mismatch:
  "\<forall>d\<in>set ds. 0 < d \<Longrightarrow> \<exists>d\<in>set ds. n mod d \<noteq> 0 \<Longrightarrow> check_dims ds n err = Ok (Some MismatchedDimensions)"
proof (induction ds arbitrary: err)
  case Nil
  then show ?case by simp
next
  case (Cons d ds)
  have keep: "check_dims ds n (Some MismatchedDimensions) = Ok (Some MismatchedDimensions)"
    if "\<forall>d\<in>set ds. 0 < d" for ds
    using that by (induction ds) auto
  show ?case
  proof (cases "n mod d = 0")
    case True
    with Cons.prems have "\<exists>d\<in>set ds. n mod d \<noteq> 0" by auto
    with Cons.IH [of err] Cons.prems True show ?thesis by auto
  next
    case False
    with Cons.prems keep [of ds] show ?thesis by auto
  qed
qed

lemma Close_loop_Ok:
  "Close_loop src depth i dims elems = Ok (ds, es) \<Longrightarrow>
     ds = dims \<and> es = elems \<and> check_dims dims (length elems) None = Ok None"
proof (induction src depth i dims elems rule: Close_loop.induct)
  case (1 src depth i dims elems)
  from "1.prems" show ?case
    apply (subst (asm) Close_loop.simps)
    apply (auto split: if_splits result.splits option.splits dest: "1.IH")
    done
qed

lemma Element_Delim_Ok:
  "Element_loop src del depth i dims elems = Ok (ds, es) \<Longrightarrow>
      check_dims ds (length es) None = Ok None"
  "Delim_loop src del depth i dims elems = Ok (ds, es) \<Longrightarrow>
      check_dims ds (length es) None = Ok None"
proof (induction src del depth i dims elems and src del depth i dims elems
       rule: Element_loop_Delim_loop.induct)
  case (1 src del depth i dims elems)
  from "1.prems" show ?case
    apply (subst (asm) Element_loop.simps)
    apply (auto split: if_splits sum.splits scan.splits dest: "1.IH")
    done
next
  case (2 src del depth i dims elems)
  from "2.prems" show ?case
    apply (subst (asm) Delim_loop.simps)
    apply (auto split: if_splits sum.splits dest: Close_loop_Ok "2.IH")
    done
qed

lemma parseArray_Ok_check:
  "parseArray src del = Ok (dims, elems) \<Longrightarrow> check_dims dims (length elems) None = Ok None"
  unfolding parseArray_def
  by (auto split: if_splits opened.splits dest: Element_Delim_Ok(1) Close_loop_Ok)



lemma Element_loop_unquoted:
  "i < length src \<Longrightarrow> src ! i \<noteq> dquote \<Longrightarrow> src ! i \<noteq> CHR ''{'' \<Longrightarrow>
   unquoted_loop src del i i = Found x k \<Longrightarrow>
     Element_loop src del depth i dims elems = Delim_loop src del depth k dims (elems @ [x])"
  by (subst Element_loop.simps) simp

lemma Replace_append: "Replace (a @ b) old new = Replace a old new @ Replace b old new"
  by (induction a) auto

lemma Replace_none: "old \<notin> set s \<Longrightarrow> Replace s old new = s"
  by (induction s) auto

lemma digit_not_space: "(n::nat) < 10 \<Longrightarrow> char_of (48 + n) \<noteq> CHR '' ''"
proof
  assume n: "n < 10" and "char_of (48 + n) = CHR '' ''"
  then have "(of_char (char_of (48 + n)) :: nat) = of_char (CHR '' '')" by simp
  with n show False by (simp add: of_char_of)
qed

lemma show_nat_no_space: "CHR '' '' \<notin> set (show_nat n)"
proof (induction n rule: show_nat.induct)
  case (1 n)
  show ?case
  proof (cases "n < 10")
    case True
    then show ?thesis using digit_not_space [of n] by (subst show_nat.simps) simp
  next
    case False
    have "n mod 10 < 10" by simp
    from digit_not_space [OF this] "1.IH" False show ?thesis
      by (subst show_nat.simps) simp
  qed
qed

lemma Replace_Sprint_elems:
  "dims \<noteq> [] \<Longrightarrow>
   ''['' @ Replace (Sprint_elems dims) (CHR '' '') '']['' @ '']'' =
     concat (map (\<lambda>d. ''['' @ show_nat d @ '']'') dims)"
proof (induction dims rule: Sprint_elems.induct)
  case 1
  then show ?case by simp
next
  case (2 d)
  then show ?case by (simp add: Replace_none show_nat_no_space)
next
  case (3 d e ds)
  then show ?case by (simp add: Replace_append Replace_none show_nat_no_space)
qed

lemma Replace_Sprint:
  "dims \<noteq> [] \<Longrightarrow>
   Replace (Sprint dims) (CHR '' '') '']['' = concat (map (\<lambda>d. ''['' @ show_nat d @ '']'') dims)"
  using Replace_Sprint_elems [of dims] by (simp add: Sprint_def Replace_append)

lemma nth_in_drop: "p < length xs \<Longrightarrow> xs ! p \<in> set (drop p xs)"
  by (simp add: Cons_nth_drop_Suc [symmetric])

lemma Next_eq:
  "Next r = (if length (buf r) \<le> pos r then ((CHR 0x00, Some EOF), r)
             else ((buf r ! pos r, None), r\<lparr>pos := Suc (pos r)\<rparr>))"
  by (simp add: Next_def ReadByte_def)

lemma Peek_eq:
  "0 < pos r \<Longrightarrow>
   Peek r = (if length (buf r) \<le> pos r then (Inr (CHR 0x00, None), r\<lparr>pos := pos r - 1\<rparr>)
             else (Inr (buf r ! pos r, None), r))"
  by (simp add: Peek_def ReadByte_def Seek_back_def)

lemma SplitBytes_body_eof:
  "length (buf r) \<le> pos r \<Longrightarrow>
   SplitBytes_body r chunks elem prev depth quoted =
     Inr (r, chunks, elem @ [CHR 0x00], CHR 0x00, depth, quoted)"
  by (simp add: SplitBytes_body_def Next_eq)

lemma SplitBytes_body_paren:
  "pos r < length (buf r) \<Longrightarrow> buf r ! pos r = CHR '')'' \<Longrightarrow>
   SplitBytes_body r chunks elem prev depth quoted =
     (if \<not> quoted then Inr (r\<lparr>pos := Suc (pos r)\<rparr>, chunks @ [elem], elem, CHR '')'', depth - 1, quoted)
      else Inr (r\<lparr>pos := Suc (pos r)\<rparr>, chunks, elem @ '')'', CHR '')'', depth, quoted))"
  by (simp add: SplitBytes_body_def Next_eq)

lemma SplitBytes_body_comma:
  "pos r < length (buf r) \<Longrightarrow> buf r ! pos r = CHR '','' \<Longrightarrow>
   SplitBytes_body r chunks elem prev depth quoted =
     (if \<not> quoted then Inr (r\<lparr>pos := Suc (pos r)\<rparr>, chunks @ [elem], [], CHR '','', depth, quoted)
      else Inr (r\<lparr>pos := Suc (pos r)\<rparr>, chunks, elem @ '','', CHR '','', depth, quoted))"
  by (simp add: SplitBytes_body_def Next_eq)

lemma SplitBytes_body_other:
  "pos r < length (buf r) \<Longrightarrow> buf r ! pos r \<noteq> CHR '')'' \<Longrightarrow> buf r ! pos r \<noteq> dquote \<Longrightarrow>
   buf r ! pos r \<noteq> CHR '','' \<Longrightarrow>
   SplitBytes_body r chunks elem prev depth quoted =
     Inr (r\<lparr>pos := Suc (pos r)\<rparr>, chunks, elem @ [buf r ! pos r], buf r ! pos r, depth, quoted)"
  by (simp add: SplitBytes_body_def Next_eq)

lemma SplitBytes_body_quote2:
  "Suc (pos r) < length (buf r) \<Longrightarrow> buf r ! pos r = dquote \<Longrightarrow> buf r ! Suc (pos r) = dquote \<Longrightarrow>
   SplitBytes_body r chunks elem prev depth quoted =
     Inr (r\<lparr>pos := Suc (Suc (pos r))\<rparr>, chunks, elem @ [dquote], dquote, depth, quoted)"
  by (simp add: SplitBytes_body_def Next_eq Peek_eq)

lemma SplitBytes_body_quote1:
  "Suc (pos r) < length (buf r) \<Longrightarrow> buf r ! pos r = dquote \<Longrightarrow> buf r ! Suc (pos r) \<noteq> dquote \<Longrightarrow>
   SplitBytes_body r chunks elem prev depth quoted =
     (if prev \<noteq> bslash then Inr (r\<lparr>pos := Suc (pos r)\<rparr>, chunks, elem, dquote, depth, \<not> quoted)
      else Inr (r\<lparr>pos := Suc (pos r)\<rparr>, chunks, elem @ [dquote], dquote, depth, quoted))"
  by (simp add: SplitBytes_body_def Next_eq Peek_eq)

lemma SplitBytes_body_quote_last:
  assumes "Suc (pos r) = length (buf r)" and "buf r ! pos r = dquote"
  shows "SplitBytes_body r chunks elem prev depth quoted =
     (if prev \<noteq> bslash then Inr (r, chunks, elem, dquote, depth, \<not> quoted)
      else Inr (r, chunks, elem @ [dquote], dquote, depth, quoted))"
proof -
  from assms have n: "Next r = ((dquote, None), r\<lparr>pos := Suc (pos r)\<rparr>)"
    by (simp add: Next_eq)
  from assms(1) have "buf r \<noteq> []" by (cases "buf r") auto
  with assms have p: "Peek (r\<lparr>pos := Suc (pos r)\<rparr>) = (Inr (CHR 0x00, None), r)"
    by (simp add: Peek_def ReadByte_def Seek_back_def)
  show ?thesis by (simp add: SplitBytes_body_def n p)
qed

lemma SplitBytes_body_Inr: "SplitBytes_body r chunks elem prev depth quoted \<noteq> Inl res"
proof (cases "pos r < length (buf r)")
  case False
  then show ?thesis by (simp add: SplitBytes_body_eof)
next
  case True
  consider "buf r ! pos r = CHR '')''" | "buf r ! pos r = CHR '',''"
    | "buf r ! pos r = dquote" "Suc (pos r) = length (buf r)"
    | "buf r ! pos r = dquote" "Suc (pos r) < length (buf r)" "buf r ! Suc (pos r) = dquote"
    | "buf r ! pos r = dquote" "Suc (pos r) < length (buf r)" "buf r ! Suc (pos r) \<noteq> dquote"
    | "buf r ! pos r \<noteq> CHR '')''" "buf r ! pos r \<noteq> CHR '',''" "buf r ! pos r \<noteq> dquote"
    using True by linarith
  then show ?thesis
  proof cases
    case 1 with True show ?thesis by (simp add: SplitBytes_body_paren)
  next
    case 2 with True show ?thesis by (simp add: SplitBytes_body_comma)
  next
    case 3 then show ?thesis by (simp add: SplitBytes_body_quote_last)
  next
    case 4 then show ?thesis by (simp add: SplitBytes_body_quote2)
  next
    case 5 then show ?thesis by (simp add: SplitBytes_body_quote1)
  next
    case 6 with True show ?thesis by (simp add: SplitBytes_body_other)
  qed
qed

lemma SplitBytes_body_pos:
  assumes "SplitBytes_body r chunks elem prev depth quoted = Inr (r', chunks', elem', prev', depth', quoted')"
  shows "buf r' = buf r \<and> pos r \<le> pos r' \<and>
     (CHR '')'' \<notin> set (drop (pos r) (buf r)) \<longrightarrow> depth' = depth)"
proof (cases "pos r < length (buf r)")
  case False
  with assms show ?thesis by (simp add: SplitBytes_body_eof)
next
  case True
  consider "buf r ! pos r = CHR '')''" | "buf r ! pos r = CHR '',''"
    | "buf r ! pos r = dquote" "Suc (pos r) = length (buf r)"
    | "buf r ! pos r = dquote" "Suc (pos r) < length (buf r)" "buf r ! Suc (pos r) = dquote"
    | "buf r ! pos r = dquote" "Suc (pos r) < length (buf r)" "buf r ! Suc (pos r) \<noteq> dquote"
    | "buf r ! pos r \<noteq> CHR '')''" "buf r ! pos r \<noteq> CHR '',''" "buf r ! pos r \<noteq> dquote"
    using True by linarith
  then show ?thesis
  proof cases
    case 1
    with nth_in_drop [OF True] have "CHR '')'' \<in> set (drop (pos r) (buf r))" by simp
    with 1 True assms show ?thesis by (auto simp: SplitBytes_body_paren split: if_splits)
  next
    case 2 with True assms show ?thesis by (auto simp: SplitBytes_body_comma split: if_splits)
  next
    case 3 with assms show ?thesis by (auto simp: SplitBytes_body_quote_last split: if_splits)
  next
    case 4 with assms show ?thesis by (auto simp: SplitBytes_body_quote2)
  next
    case 5 with assms show ?thesis by (auto simp: SplitBytes_body_quote1 split: if_splits)
  next
    case 6 with True assms show ?thesis by (auto simp: SplitBytes_body_other)
  qed
qed

lemma SplitBytes_body_append:
  assumes b: "SplitBytes_body r chunks elem prev depth quoted = Inr (r', chunks', elem', prev', depth', quoted')"
    and live: "depth' = 0 \<or> CHR '')'' \<in> set (drop (pos r') (buf r'))"
    and d: "depth \<noteq> 0"
  shows "SplitBytes_body (r\<lparr>buf := buf r @ t\<rparr>) chunks elem prev depth quoted =
       Inr (r'\<lparr>buf := buf r' @ t\<rparr>, chunks', elem', prev', depth', quoted')"
proof (cases "pos r < length (buf r)")
  case False
  with b d live show ?thesis by (auto simp: SplitBytes_body_eof)
next
  case True
  let ?r = "r\<lparr>buf := buf r @ t\<rparr>"
  have T: "pos ?r < length (buf ?r)" and e: "buf ?r ! pos ?r = buf r ! pos r"
    using True by (simp_all add: nth_append)
  consider "buf r ! pos r = CHR '')''" | "buf r ! pos r = CHR '',''"
    | "buf r ! pos r = dquote" "Suc (pos r) = length (buf r)"
    | "buf r ! pos r = dquote" "Suc (pos r) < length (buf r)" "buf r ! Suc (pos r) = dquote"
    | "buf r ! pos r = dquote" "Suc (pos r) < length (buf r)" "buf r ! Suc (pos r) \<noteq> dquote"
    | "buf r ! pos r \<noteq> CHR '')''" "buf r ! pos r \<noteq> CHR '',''" "buf r ! pos r \<noteq> dquote"
    using True by linarith
  then show ?thesis
  proof cases
    case 1
    from b show ?thesis
      unfolding SplitBytes_body_paren [OF True 1] SplitBytes_body_paren [OF T e [unfolded 1]]
      by (auto split: if_splits)
  next
    case 2
    from b show ?thesis
      unfolding SplitBytes_body_comma [OF True 2] SplitBytes_body_comma [OF T e [unfolded 2]]
      by (auto split: if_splits)
  next
    case 3
    from b have "r' = r" "depth' = depth"
      unfolding SplitBytes_body_quote_last [OF 3(2) 3(1)] by (auto split: if_splits)
    moreover have "drop (pos r) (buf r) = [dquote]"
      using Cons_nth_drop_Suc [OF True] 3 by simp
    ultimately have False using live d by simp
    then show ?thesis ..
  next
    case 4
    have T2: "Suc (pos ?r) < length (buf ?r)" and e2: "buf ?r ! Suc (pos ?r) = dquote"
      using 4 by (simp_all add: nth_append)
    from b show ?thesis
      unfolding SplitBytes_body_quote2 [OF 4(2) 4(1) 4(3)]
        SplitBytes_body_quote2 [OF T2 e [unfolded 4(1)] e2]
      by auto
  next
    case 5
    have T2: "Suc (pos ?r) < length (buf ?r)" and e2: "buf ?r ! Suc (pos ?r) \<noteq> dquote"
      using 5 by (simp_all add: nth_append)
    from b show ?thesis
      unfolding SplitBytes_body_quote1 [OF 5(2) 5(1) 5(3)]
        SplitBytes_body_quote1 [OF T2 e [unfolded 5(1)] e2]
      by (auto split: if_splits)
  next
    case 6
    have e6: "buf ?r ! pos ?r \<noteq> CHR '')''" "buf ?r ! pos ?r \<noteq> dquote" "buf ?r ! pos ?r \<noteq> CHR '',''"
      using 6 e by simp_all
    from b show ?thesis
      unfolding SplitBytes_body_other [OF True 6(1) 6(3) 6(2)]
        SplitBytes_body_other [OF T e6]
      using True by (auto simp: nth_append)
  qed
qed

lemma SplitBytes_loop_Some:
  assumes a: "SplitBytes_loop r chunks elem prev depth quoted = Some res"
  shows "(depth = 0 \<or> CHR '')'' \<in> set (drop (pos r) (buf r))) \<and>
     (\<exists>cs. res = Ok cs) \<and>
     (\<forall>t. SplitBytes_loop (r\<lparr>buf := buf r @ t\<rparr>) chunks elem prev depth quoted = Some res)"
proof (rule SplitBytes_loop.raw_induct
    [where P = "\<lambda>r chunks elem prev depth quoted res.
       (depth = 0 \<or> CHR '')'' \<in> set (drop (pos r) (buf r))) \<and>
       (\<exists>cs. res = Ok cs) \<and>
       (\<forall>t. SplitBytes_loop (r\<lparr>buf := buf r @ t\<rparr>) chunks elem prev depth quoted = Some res)",
     OF _ a], goal_cases)
  case (1 f r chunks elem prev depth quoted res)
  show ?case
  proof (cases "depth = 0")
    case True
    with 1(2) have "res = Ok chunks" by simp
    with True show ?thesis by (simp add: SplitBytes_loop.simps)
  next
    case False
    obtain r' chunks' elem' prev' depth' quoted' where
      b: "SplitBytes_body r chunks elem prev depth quoted = Inr (r', chunks', elem', prev', depth', quoted')"
      using SplitBytes_body_Inr [of r chunks elem prev depth quoted]
      by (cases "SplitBytes_body r chunks elem prev depth quoted") auto
    with 1(2) False have "f r' chunks' elem' prev' depth' quoted' = Some res" by simp
    from 1(1) [OF this]
    have ih1: "depth' = 0 \<or> CHR '')'' \<in> set (drop (pos r') (buf r'))"
      and ih2: "\<exists>cs. res = Ok cs"
      and ih3: "\<And>t. SplitBytes_loop (r'\<lparr>buf := buf r' @ t\<rparr>) chunks' elem' prev' depth' quoted' = Some res"
      by auto
    from SplitBytes_body_pos [OF b]
    have p: "buf r' = buf r" "pos r \<le> pos r'"
      "CHR '')'' \<notin> set (drop (pos r) (buf r)) \<Longrightarrow> depth' = depth"
      by auto
    have c1: "CHR '')'' \<in> set (drop (pos r) (buf r))"
    proof (rule ccontr)
      assume n: "CHR '')'' \<notin> set (drop (pos r) (buf r))"
      with p(3) False have "depth' \<noteq> 0" by simp
      with ih1 have "CHR '')'' \<in> set (drop (pos r') (buf r))" by (simp add: p(1))
      with set_drop_subset_set_drop [OF p(2), of "buf r"] n show False by auto
    qed
    have c3: "SplitBytes_loop (r\<lparr>buf := buf r @ t\<rparr>) chunks elem prev depth quoted = Some res" for t
      using SplitBytes_body_append [OF b ih1 False, of t] ih3 [of t] False
      by (subst SplitBytes_loop.simps) simp
    from c1 ih2 c3 show ?thesis by simp
  qed
qed

lemma shaped_Arr: "shaped (d # ds) x \<Longrightarrow> \<exists>y ys. x = Arr (y # ys) \<and> d = Suc (length ys) \<and> shaped ds y \<and> list_all (shaped ds) ys"
  by (cases x; cases "case x of Arr xs \<Rightarrow> xs | _ \<Rightarrow> []") auto

lemma shaped_leaf: "shaped [] x \<Longrightarrow> x = Null \<or> (\<exists>e. x = Plain e \<and> plain e) \<or> (\<exists>v. x = Quoted v)"
  by (cases x) auto

lemma render_rest: "shaped ds x \<Longrightarrow> render x = replicate (length ds) (CHR ''{'') @ unbraced x"
proof (induction ds arbitrary: x)
  case Nil
  then show ?case by (cases x) auto
next
  case (Cons d ds)
  from shaped_Arr [OF Cons.prems] obtain y ys where
    x: "x = Arr (y # ys)" and y: "shaped ds y" by blast
  from Cons.IH [OF y] show ?case by (simp add: x)
qed

lemma rest_hd: "shaped ds x \<Longrightarrow> unbraced x \<noteq> [] \<and> hd (unbraced x) \<noteq> CHR ''{'' \<and> hd (unbraced x) \<noteq> CHR ''}''"
proof (induction ds arbitrary: x)
  case Nil
  from shaped_leaf [OF Nil] show ?case
  proof (elim disjE exE conjE)
    fix e assume "x = Plain e" "plain e"
    then show ?thesis by (cases e) (auto simp: plain_def)
  qed (auto simp: AppendArrayQuotedBytes_escaped)
next
  case (Cons d ds)
  from shaped_Arr [OF Cons.prems] obtain y ys where
    x: "x = Arr (y # ys)" and y: "shaped ds y" by blast
  from Cons.IH [OF y] show ?case by (simp add: x)
qed

lemma flat_length: "shaped ds x \<Longrightarrow> length (flat x) = prod_list ds"
proof (induction ds arbitrary: x)
  case Nil
  then show ?case by (cases x) auto
next
  case (Cons d ds)
  from shaped_Arr [OF Cons.prems] obtain y ys where
    x: "x = Arr (y # ys)" and d: "d = Suc (length ys)" and y: "shaped ds y"
    and ys: "list_all (shaped ds) ys" by blast
  have "length (concat (map flat zs)) = length zs * prod_list ds" if "list_all (shaped ds) zs" for zs
    using that by (induction zs) (auto simp: Cons.IH)
  from this [of "y # ys"] y ys show ?case by (simp add: x d)
qed

lemma shaped_pos: "shaped ds x \<Longrightarrow> \<forall>d\<in>set ds. 0 < d"
proof (induction ds arbitrary: x)
  case Nil
  then show ?case by simp
next
  case (Cons d ds)
  from shaped_Arr [OF Cons.prems] obtain y ys where
    x: "x = Arr (y # ys)" and d: "d = Suc (length ys)" and y: "shaped ds y" by blast
  from Cons.IH [OF y] d show ?case by simp
qed

lemma check_dims_divides:
  "\<forall>d\<in>set ds. 0 < d \<and> n mod d = 0 \<Longrightarrow> check_dims ds n None = Ok None"
  by (induction ds) auto

lemma prod_list_mod: "d \<in> set ds \<Longrightarrow> prod_list ds mod d = (0::nat)"
  by (induction ds) auto

lemma HasPrefix_comma: "HasPrefix s '','' \<longleftrightarrow> s \<noteq> [] \<and> hd s = CHR '',''"
  by (cases s) (auto simp: HasPrefix_def)

lemma unquoted_scan:
  assumes e: "e \<noteq> []" "list_all (\<lambda>c. c \<noteq> CHR '','' \<and> c \<noteq> CHR ''}'') e"
    and post: "post \<noteq> []" "hd post = CHR '','' \<or> hd post = CHR ''}''"
  shows "k \<le> length e \<Longrightarrow>
    unquoted_loop (pre @ e @ post) '','' (length pre) (length pre + k) =
      Found (if e = ''NULL'' then None else Some e) (length pre + length e)"
proof (induction "length e - k" arbitrary: k)
  case 0
  then have k: "k = length e" by simp
  from post obtain c post' where p: "post = c # post'" and c: "c = CHR '','' \<or> c = CHR ''}''"
    by (cases post) auto
  have d: "drop (length pre + length e) (pre @ e @ c # post') = c # post'" by simp
  have n: "(pre @ e @ c # post') ! (length pre + length e) = c" by (simp add: nth_append)
  have t: "take (length pre + length e - length pre) (drop (length pre) (pre @ e @ c # post')) = e"
    by simp
  have l: "length pre + length e < length (pre @ e @ c # post')" by simp
  have h: "HasPrefix (c # post') '','' \<or> c = CHR ''}''"
    using c by (auto simp: HasPrefix_comma)
  show ?case
    unfolding k p
    by (subst unquoted_loop.simps) (simp only: l d n t h if_True Let_def, use e in simp)
next
  case (Suc m)
  then have k: "k < length e" by simp
  have n: "(pre @ e @ post) ! (length pre + k) = e ! k"
    using k by (simp add: nth_append)
  have c: "e ! k \<noteq> CHR '',''" "e ! k \<noteq> CHR ''}''"
    using e(2) k by (auto simp: list_all_length)
  have d: "drop (length pre + k) (pre @ e @ post) = e ! k # drop (Suc k) e @ post"
    using k by (simp add: Cons_nth_drop_Suc)
  have l: "length pre + k < length (pre @ e @ post)" using k by simp
  have h: "\<not> (HasPrefix (e ! k # drop (Suc k) e @ post) '','' \<or> e ! k = CHR ''}'')"
    using c by (simp add: HasPrefix_comma)
  have "unquoted_loop (pre @ e @ post) '','' (length pre) (length pre + k) =
        unquoted_loop (pre @ e @ post) '','' (length pre) (length pre + k + 1)"
    by (subst unquoted_loop.simps) (simp only: l d n h if_True if_False)
  also have "\<dots> = Found (if e = ''NULL'' then None else Some e) (length pre + length e)"
    using Suc Suc.hyps(1) [of "Suc k"] by simp
  finally show ?case .
qed

lemma leaf:
  assumes x: "shaped [] x" and post: "post \<noteq> []" "hd post = CHR '','' \<or> hd post = CHR ''}''"
  shows "Element_loop (pre @ render x @ post) '','' depth (length pre) dims elems =
         Delim_loop (pre @ render x @ post) '','' depth (length pre + length (render x)) dims
           (elems @ flat x)"
proof -
  have un: "Element_loop (pre @ e @ post) '','' depth (length pre) dims elems =
         Delim_loop (pre @ e @ post) '','' depth (length pre + length e) dims
           (elems @ [if e = ''NULL'' then None else Some e])"
    if e: "e \<noteq> []" "list_all (\<lambda>c. c \<noteq> CHR '','' \<and> c \<noteq> CHR ''}'') e"
      "hd e \<noteq> CHR ''{''" "hd e \<noteq> dquote" for e
  proof -
    have n: "(pre @ e @ post) ! length pre = hd e"
      using e(1) by (simp add: nth_append hd_conv_nth)
    from unquoted_scan [OF e(1,2) post, of 0 pre] show ?thesis
      by (subst Element_loop.simps) (use e in \<open>simp add: n\<close>)
  qed
  from shaped_leaf [OF x] show ?thesis
  proof (elim disjE exE conjE)
    assume "x = Null"
    with un [of "''NULL''"] show ?thesis by simp
  next
    fix e assume "x = Plain e" "plain e"
    with un [of e] show ?thesis by (simp add: plain_def)
  next
    fix v assume v: "x = Quoted v"
    have s: "pre @ render x @ post = (pre @ [dquote]) @ escaped v @ dquote # post"
      by (simp add: v AppendArrayQuotedBytes_escaped)
    have n: "((pre @ [dquote]) @ escaped v @ dquote # post) ! length pre = dquote"
      by (simp add: nth_append)
    have l: "length (render x) = Suc (Suc (length (escaped v)))"
      by (simp add: v AppendArrayQuotedBytes_escaped)
    from quoted_loop_escaped [of "pre @ [dquote]" v post "[]"] show ?thesis
      unfolding s l
      by (subst Element_loop.simps) (simp add: n v)
  qed
qed

lemma eat:
  "length D = h \<Longrightarrow>
   Element_loop (pre @ replicate h (CHR ''{'') @ after) del (length A) (length pre) (A @ D @ B) elems =
   Element_loop (pre @ replicate h (CHR ''{'') @ after) del (length A + h) (length pre + h)
     (A @ replicate h 0 @ B) elems"
proof (induction h arbitrary: pre A D)
  case 0
  then show ?case by simp
next
  case (Suc h)
  then obtain d D' where D: "D = d # D'" and l: "length D' = h" by (cases D) auto
  let ?src = "pre @ replicate (Suc h) (CHR ''{'') @ after"
  have n: "?src ! length pre = CHR ''{''" by (simp add: nth_append)
  have u: "(A @ D @ B)[length A := 0] = (A @ [0]) @ D' @ B" by (simp add: D list_update_append)
  have "Element_loop ?src del (length A) (length pre) (A @ D @ B) elems =
        Element_loop ?src del (length A + 1) (length pre + 1) ((A @ [0]) @ D' @ B) elems"
    by (subst Element_loop.simps) (simp add: n dims_index_def u D)
  also have "\<dots> = Element_loop ((pre @ ''{'') @ replicate h (CHR ''{'') @ after) del
       (length (A @ [0])) (length (pre @ ''{'')) ((A @ [0]) @ D' @ B) elems"
    by simp
  also have "\<dots> = Element_loop ((pre @ ''{'') @ replicate h (CHR ''{'') @ after) del
       (length (A @ [0]) + h) (length (pre @ ''{'') + h) ((A @ [0]) @ replicate h 0 @ B) elems"
    by (rule Suc.IH [OF l])
  finally show ?case by simp
qed

lemma siblings:
  assumes F: "\<And>z pre post A D B elems. z \<in> set ys \<Longrightarrow> length D = length ds \<Longrightarrow> post \<noteq> [] \<Longrightarrow>
      hd post = CHR '','' \<or> hd post = CHR ''}'' \<Longrightarrow>
      Element_loop (pre @ render z @ post) '','' (length A) (length pre) (A @ D @ B) elems =
      Delim_loop (pre @ render z @ post) '','' (length A) (length pre + length (render z))
        (A @ ds @ B) (elems @ flat z)"
  shows "Delim_loop (pre @ sib ys @ ''}'' @ post) '','' (length A + 1) (length pre)
           (A @ [c] @ ds @ B) elems =
         Delim_loop (pre @ sib ys @ ''}'' @ post) '','' (length A)
           (length pre + length (sib ys) + 1) (A @ [c + length ys + 1] @ ds @ B)
           (elems @ concat (map flat ys))"
  using F
proof (induction ys arbitrary: pre c elems)
  case Nil
  have n: "(pre @ ''}'' @ post) ! length pre = CHR ''}''" by (simp add: nth_append)
  have u: "(A @ [c] @ ds @ B)[length A := Suc c] = A @ [Suc c] @ ds @ B"
    by (simp add: list_update_append)
  show ?case
    by (subst Delim_loop.simps)
       (simp add: n HasPrefix_comma dims_index_def nth_append u)
next
  case (Cons z zs)
  let ?src = "pre @ sib (z # zs) @ ''}'' @ post"
  have n: "?src ! length pre = CHR '',''" by (simp add: nth_append)
  have d: "drop (length pre) ?src = CHR '','' # render z @ sib zs @ ''}'' @ post" by simp
  have u: "(A @ [c] @ ds @ B)[length A := Suc c] = (A @ [Suc c]) @ ds @ B"
    by (simp add: list_update_append)
  have s1: "?src = (pre @ '','') @ render z @ (sib zs @ ''}'' @ post)" by simp
  have t: "sib zs @ ''}'' @ post \<noteq> [] \<and>
      (hd (sib zs @ ''}'' @ post) = CHR '','' \<or> hd (sib zs @ ''}'' @ post) = CHR ''}'')"
    by (cases zs) auto
  have s2: "?src = (pre @ '','' @ render z) @ sib zs @ ''}'' @ post" by simp
  have "Delim_loop ?src '','' (length A + 1) (length pre) (A @ [c] @ ds @ B) elems =
        Element_loop ?src '','' (length (A @ [Suc c])) (length (pre @ '','')) ((A @ [Suc c]) @ ds @ B) elems"
    by (subst Delim_loop.simps) (simp add: d HasPrefix_comma dims_index_def nth_append u)
  also have "\<dots> = Delim_loop ?src '','' (length (A @ [Suc c]))
        (length (pre @ '','') + length (render z)) ((A @ [Suc c]) @ ds @ B) (elems @ flat z)"
    unfolding s1
    by (rule Cons.prems) (use t in auto)
  also have "\<dots> = Delim_loop ?src '','' (length A + 1) (length (pre @ '','' @ render z))
        (A @ [Suc c] @ ds @ B) (elems @ flat z)"
    by simp
  also have "\<dots> = Delim_loop ?src '','' (length A)
        (length (pre @ '','' @ render z) + length (sib zs) + 1)
        (A @ [Suc c + length zs + 1] @ ds @ B) ((elems @ flat z) @ concat (map flat zs))"
    unfolding s2
    by (rule Cons.IH) (rule Cons.prems, auto)
  finally show ?case by (simp add: add.assoc)
qed

lemma nested:
  assumes "shaped ds x" and "ds = [] \<longrightarrow> post \<noteq> [] \<and> (hd post = CHR '','' \<or> hd post = CHR ''}'')"
  shows "Element_loop (pre @ unbraced x @ post) '','' (length A + length ds) (length pre)
           (A @ replicate (length ds) 0 @ B) elems =
         Delim_loop (pre @ unbraced x @ post) '','' (length A) (length pre + length (unbraced x))
           (A @ ds @ B) (elems @ flat x)"
  using assms
proof (induction x arbitrary: ds A B pre post elems)
  case Null
  then have "ds = []" by (cases ds) auto
  with Null leaf [of Null post pre _ "A @ B" elems] show ?case by simp
next
  case (Plain e)
  then have "ds = []" by (cases ds) auto
  with Plain leaf [of "Plain e" post pre _ "A @ B" elems] show ?case by simp
next
  case (Quoted v)
  then have "ds = []" by (cases ds) auto
  with Quoted leaf [of "Quoted v" post pre _ "A @ B" elems] show ?case by simp
next
  case (Arr xs)
  from Arr.prems(1) obtain d ds' where ds: "ds = d # ds'" by (cases ds) auto
  from shaped_Arr [OF Arr.prems(1) [unfolded ds]] obtain y ys where
    xs: "xs = y # ys" and d: "d = Suc (length ys)" and y: "shaped ds' y"
    and ys: "list_all (shaped ds') ys" by blast
  define tail where "tail = sib ys @ ''}'' @ post"
  have t: "tail \<noteq> [] \<and> (hd tail = CHR '','' \<or> hd tail = CHR ''}'')"
    by (cases ys) (auto simp: tail_def)
  let ?src = "pre @ unbraced (Arr xs) @ post"
  have s1: "?src = pre @ unbraced y @ tail" by (simp add: xs tail_def)
  have s2: "?src = (pre @ unbraced y) @ sib ys @ ''}'' @ post" by (simp add: xs)
  have F: "Element_loop (pre @ render z @ post) '','' (length A) (length pre) (A @ D @ B) elems =
      Delim_loop (pre @ render z @ post) '','' (length A) (length pre + length (render z))
        (A @ ds' @ B) (elems @ flat z)"
    if z: "z \<in> set ys" and D: "length D = length ds'" and p: "post \<noteq> []"
      "hd post = CHR '','' \<or> hd post = CHR ''}''"
    for z pre post A D B elems
  proof -
    from z ys have sz: "shaped ds' z" by (auto simp: list_all_iff)
    from z have zx: "z \<in> set xs" by (simp add: xs)
    have r: "render z = replicate (length ds') (CHR ''{'') @ unbraced z"
      by (rule render_rest [OF sz])
    have "Element_loop (pre @ render z @ post) '','' (length A) (length pre) (A @ D @ B) elems =
          Element_loop (pre @ replicate (length ds') (CHR ''{'') @ unbraced z @ post) '','' (length A + length ds')
            (length pre + length ds') (A @ replicate (length ds') 0 @ B) elems"
      unfolding r using eat [OF D, of pre "unbraced z @ post" "'',''" A B elems] by simp
    also have "\<dots> = Element_loop ((pre @ replicate (length ds') (CHR ''{'')) @ unbraced z @ post) '',''
            (length A + length ds') (length (pre @ replicate (length ds') (CHR ''{'')))
            (A @ replicate (length ds') 0 @ B) elems"
      by simp
    also have "\<dots> = Delim_loop ((pre @ replicate (length ds') (CHR ''{'')) @ unbraced z @ post) '',''
            (length A) (length (pre @ replicate (length ds') (CHR ''{'')) + length (unbraced z))
            (A @ ds' @ B) (elems @ flat z)"
      by (rule Arr.IH [OF zx sz]) (use p in simp)
    finally show ?thesis by (simp add: r add.assoc)
  qed
  have "Element_loop ?src '','' (length A + length ds) (length pre)
           (A @ replicate (length ds) 0 @ B) elems =
        Element_loop (pre @ unbraced y @ tail) '','' (length (A @ [0]) + length ds') (length pre)
           ((A @ [0]) @ replicate (length ds') 0 @ B) elems"
    unfolding s1 by (simp add: ds)
  also have "\<dots> = Delim_loop (pre @ unbraced y @ tail) '','' (length (A @ [0]))
           (length pre + length (unbraced y)) ((A @ [0]) @ ds' @ B) (elems @ flat y)"
    by (rule Arr.IH [OF _ y]) (use t in \<open>simp_all add: xs\<close>)
  also have "\<dots> = Delim_loop ?src '','' (length A + 1) (length (pre @ unbraced y))
           (A @ [0] @ ds' @ B) (elems @ flat y)"
    unfolding s1 by simp
  also have "\<dots> = Delim_loop ?src '','' (length A)
           (length (pre @ unbraced y) + length (sib ys) + 1) (A @ [0 + length ys + 1] @ ds' @ B)
           ((elems @ flat y) @ concat (map flat ys))"
    unfolding s2 by (rule siblings) (rule F)
  finally show ?case by (simp add: xs ds d add.assoc)
qed

lemma Open_loop_braces:
  assumes "after \<noteq> []" "hd after \<noteq> CHR ''{''" "hd after \<noteq> CHR ''}''"
  shows "i \<le> h \<Longrightarrow> Open_loop (replicate h (CHR ''{'') @ after) d i = LeftOpen (d + (h - i)) h"
proof (induction "h - i" arbitrary: i d)
  case 0
  then have i: "i = h" by simp
  have n: "(replicate h (CHR ''{'') @ after) ! h = hd after"
    using assms(1) by (simp add: nth_append hd_conv_nth)
  show ?case unfolding i
    by (subst Open_loop.simps) (use assms in \<open>simp add: n\<close>)
next
  case (Suc m)
  then have i: "i < h" by simp
  then have n: "(replicate h (CHR ''{'') @ after) ! i = CHR ''{''" by (simp add: nth_append)
  have "Open_loop (replicate h (CHR ''{'') @ after) d i =
        Open_loop (replicate h (CHR ''{'') @ after) (d + 1) (i + 1)"
    by (subst Open_loop.simps) (use i in \<open>simp add: n\<close>)
  also have "\<dots> = LeftOpen (d + 1 + (h - (i + 1))) h"
    using Suc i by (intro Suc.hyps(1)) auto
  finally show ?case using i by simp
qed

lemma SplitBytes_loop_step:
  "depth \<noteq> 0 \<Longrightarrow>
   SplitBytes_body r chunks elem prev depth quoted = Inr (r', chunks', elem', prev', depth', quoted') \<Longrightarrow>
   SplitBytes_loop r chunks elem prev depth quoted = SplitBytes_loop r' chunks' elem' prev' depth' quoted'"
  by (subst SplitBytes_loop.simps) simp

lemma run_bare:
  "list_all (\<lambda>c. c \<noteq> CHR '','' \<and> c \<noteq> CHR '')'' \<and> c \<noteq> dquote) f \<Longrightarrow> depth \<noteq> 0 \<Longrightarrow>
   SplitBytes_loop \<lparr>buf = pre @ f @ post, pos = length pre\<rparr> chunks elem prev depth False =
   SplitBytes_loop \<lparr>buf = pre @ f @ post, pos = length pre + length f\<rparr> chunks (elem @ f)
     (last (prev # f)) depth False"
proof (induction f arbitrary: pre elem prev)
  case Nil
  show ?case by simp
next
  case (Cons c f)
  let ?r = "\<lparr>buf = pre @ (c # f) @ post, pos = length pre\<rparr>"
  have n: "buf ?r ! pos ?r = c" by (simp add: nth_append)
  have b: "SplitBytes_body ?r chunks elem prev depth False =
      Inr (?r\<lparr>pos := Suc (pos ?r)\<rparr>, chunks, elem @ [buf ?r ! pos ?r], buf ?r ! pos ?r, depth, False)"
    by (rule SplitBytes_body_other) (use Cons.prems n in simp_all)
  have "SplitBytes_loop ?r chunks elem prev depth False =
        SplitBytes_loop \<lparr>buf = (pre @ [c]) @ f @ post, pos = length (pre @ [c])\<rparr> chunks (elem @ [c]) c depth False"
    using SplitBytes_loop_step [OF Cons.prems(2) b] by (simp add: nth_append)
  also have "\<dots> = SplitBytes_loop \<lparr>buf = (pre @ [c]) @ f @ post, pos = length (pre @ [c]) + length f\<rparr>
        chunks ((elem @ [c]) @ f) (last (c # f)) depth False"
    by (rule Cons.IH) (use Cons.prems in simp_all)
  finally show ?case by simp
qed

lemma run_quoted:
  "list_all (\<lambda>c. c \<noteq> dquote) v \<Longrightarrow> depth \<noteq> 0 \<Longrightarrow>
   SplitBytes_loop \<lparr>buf = pre @ v @ post, pos = length pre\<rparr> chunks elem prev depth True =
   SplitBytes_loop \<lparr>buf = pre @ v @ post, pos = length pre + length v\<rparr> chunks (elem @ v)
     (last (prev # v)) depth True"
proof (induction v arbitrary: pre elem prev)
  case Nil
  show ?case by simp
next
  case (Cons c v)
  let ?r = "\<lparr>buf = pre @ (c # v) @ post, pos = length pre\<rparr>"
  have n: "buf ?r ! pos ?r = c" and l: "pos ?r < length (buf ?r)" by (simp_all add: nth_append)
  have b: "SplitBytes_body ?r chunks elem prev depth True =
      Inr (?r\<lparr>pos := Suc (pos ?r)\<rparr>, chunks, elem @ [c], c, depth, True)"
  proof -
    consider "c = CHR '')''" | "c = CHR '',''" | "c \<noteq> CHR '')''" "c \<noteq> CHR '',''" by blast
    then show ?thesis
    proof cases
      case 1
      with SplitBytes_body_paren [OF l, of chunks elem prev depth True] n show ?thesis by simp
    next
      case 2
      with SplitBytes_body_comma [OF l, of chunks elem prev depth True] n show ?thesis by simp
    next
      case 3
      with SplitBytes_body_other [OF l, of chunks elem prev depth True] n Cons.prems show ?thesis by simp
    qed
  qed
  have "SplitBytes_loop ?r chunks elem prev depth True =
        SplitBytes_loop \<lparr>buf = (pre @ [c]) @ v @ post, pos = length (pre @ [c])\<rparr> chunks (elem @ [c]) c depth True"
    using SplitBytes_loop_step [OF Cons.prems(2) b] by simp
  also have "\<dots> = SplitBytes_loop \<lparr>buf = (pre @ [c]) @ v @ post, pos = length (pre @ [c]) + length v\<rparr>
        chunks ((elem @ [c]) @ v) (last (c # v)) depth True"
    by (rule Cons.IH) (use Cons.prems in simp_all)
  finally show ?case by simp
qed

lemma run_field:
  assumes g: "field_ok g" and post: "post \<noteq> []" "hd post = CHR '','' \<or> hd post = CHR '')''"
    and prev: "prev \<noteq> bslash" and d: "depth \<noteq> 0"
  shows "\<exists>p. SplitBytes_loop \<lparr>buf = pre @ field_text g @ post, pos = length pre\<rparr> chunks [] prev depth False =
     SplitBytes_loop \<lparr>buf = pre @ field_text g @ post, pos = length pre + length (field_text g)\<rparr>
       chunks (field_value g) p depth False"
proof (cases g)
  case (Bare f)
  with g run_bare [of f depth pre post chunks "[]" prev] d show ?thesis by auto
next
  case (InQuotes v)
  with g have v: "v \<noteq> []" "list_all (\<lambda>c. c \<noteq> dquote) v" "last v \<noteq> bslash" by simp_all
  from v(1,2) have hv: "hd v \<noteq> dquote" by (cases v) auto
  from post obtain c post' where p: "post = c # post'" and c: "c \<noteq> dquote"
    by (cases post) auto
  let ?b = "pre @ field_text g @ post"
  let ?r0 = "\<lparr>buf = ?b, pos = length pre\<rparr>"
  have b0: "SplitBytes_body ?r0 chunks [] prev depth False =
      Inr (?r0\<lparr>pos := Suc (pos ?r0)\<rparr>, chunks, [], dquote, depth, \<not> False)"
    using SplitBytes_body_quote1 [of ?r0 chunks "[]" prev depth False] v(1) hv prev
    by (simp add: InQuotes nth_append hd_conv_nth)
  have s1: "?b = (pre @ [dquote]) @ v @ (dquote # post)" by (simp add: InQuotes)
  let ?r1 = "\<lparr>buf = ?b, pos = length (pre @ [dquote]) + length v\<rparr>"
  have n1: "buf ?r1 ! pos ?r1 = dquote" "buf ?r1 ! Suc (pos ?r1) = c" "Suc (pos ?r1) < length (buf ?r1)"
    by (simp_all add: InQuotes p nth_append)
  have b1: "SplitBytes_body ?r1 chunks v (last v) depth True =
      Inr (?r1\<lparr>pos := Suc (pos ?r1)\<rparr>, chunks, v, dquote, depth, \<not> True)"
    using SplitBytes_body_quote1 [OF n1(3) n1(1), of chunks v "last v" depth True] n1(2) c v(3)
    by simp
  have "SplitBytes_loop ?r0 chunks [] prev depth False =
        SplitBytes_loop \<lparr>buf = (pre @ [dquote]) @ v @ (dquote # post), pos = length (pre @ [dquote])\<rparr>
          chunks [] dquote depth True"
    using SplitBytes_loop_step [OF d b0] by (simp add: InQuotes)
  also have "\<dots> = SplitBytes_loop \<lparr>buf = (pre @ [dquote]) @ v @ (dquote # post),
          pos = length (pre @ [dquote]) + length v\<rparr> chunks ([] @ v) (last (dquote # v)) depth True"
    by (rule run_quoted [OF v(2) d])
  also have "\<dots> = SplitBytes_loop ?r1 chunks v (last v) depth True"
    using v(1) by (simp add: InQuotes)
  also have "\<dots> = SplitBytes_loop \<lparr>buf = ?b, pos = length pre + length (field_text g)\<rparr>
          chunks v dquote depth False"
    using SplitBytes_loop_step [OF d b1] by (simp add: InQuotes)
  finally show ?thesis by (auto simp: InQuotes)
qed

lemma run_fields:
  assumes "list_all field_ok fs"
  shows "SplitBytes_loop
      \<lparr>buf = pre @ concat (map (\<lambda>g. CHR '','' # field_text g) fs) @ '')'' @ t, pos = length pre\<rparr>
      chunks elem prev 1 False =
    Some (Ok (chunks @ [elem] @ map field_value fs))"
  using assms
proof (induction fs arbitrary: pre chunks elem prev)
  case Nil
  let ?r = "\<lparr>buf = pre @ '')'' @ t, pos = length pre\<rparr>"
  have b: "SplitBytes_body ?r chunks elem prev 1 False =
      Inr (?r\<lparr>pos := Suc (pos ?r)\<rparr>, chunks @ [elem], elem, CHR '')'', 1 - 1, False)"
    using SplitBytes_body_paren [of ?r chunks elem prev 1 False] by (simp add: nth_append)
  have "SplitBytes_loop ?r chunks elem prev 1 False =
        SplitBytes_loop (?r\<lparr>pos := Suc (pos ?r)\<rparr>) (chunks @ [elem]) elem (CHR '')'') (1 - 1) False"
    by (rule SplitBytes_loop_step [OF _ b]) simp
  also have "\<dots> = Some (Ok (chunks @ [elem]))"
    by (subst SplitBytes_loop.simps) simp
  finally show ?case by simp
next
  case (Cons g gs)
  let ?tl = "concat (map (\<lambda>g. CHR '','' # field_text g) gs) @ '')'' @ t"
  let ?b = "pre @ concat (map (\<lambda>g. CHR '','' # field_text g) (g # gs)) @ '')'' @ t"
  let ?r = "\<lparr>buf = ?b, pos = length pre\<rparr>"
  have tl: "?tl \<noteq> [] \<and> (hd ?tl = CHR '','' \<or> hd ?tl = CHR '')'')" by (cases gs) auto
  have b: "SplitBytes_body ?r chunks elem prev 1 False =
      Inr (?r\<lparr>pos := Suc (pos ?r)\<rparr>, chunks @ [elem], [], CHR '','', 1, False)"
    using SplitBytes_body_comma [of ?r chunks elem prev 1 False] by (simp add: nth_append)
  have s: "?b = (pre @ '','') @ field_text g @ ?tl" by simp
  from Cons.prems have g: "field_ok g" and gs: "list_all field_ok gs" by simp_all
  from run_field [OF g _ _ _ _, of ?tl "CHR '',''" 1 "pre @ '',''" "chunks @ [elem]"] tl
  obtain p where f: "SplitBytes_loop \<lparr>buf = (pre @ '','') @ field_text g @ ?tl, pos = length (pre @ '','')\<rparr>
        (chunks @ [elem]) [] (CHR '','') 1 False =
      SplitBytes_loop \<lparr>buf = (pre @ '','') @ field_text g @ ?tl,
        pos = length (pre @ '','') + length (field_text g)\<rparr> (chunks @ [elem]) (field_value g) p 1 False"
    by auto
  have "SplitBytes_loop ?r chunks elem prev 1 False =
        SplitBytes_loop \<lparr>buf = (pre @ '','') @ field_text g @ ?tl, pos = length (pre @ '','')\<rparr>
          (chunks @ [elem]) [] (CHR '','') 1 False"
    using SplitBytes_loop_step [OF _ b] by simp
  also note f
  also have "SplitBytes_loop \<lparr>buf = (pre @ '','') @ field_text g @ ?tl,
        pos = length (pre @ '','') + length (field_text g)\<rparr> (chunks @ [elem]) (field_value g) p 1 False =
      SplitBytes_loop \<lparr>buf = (pre @ '','' @ field_text g) @ ?tl, pos = length (pre @ '','' @ field_text g)\<rparr>
        (chunks @ [elem]) (field_value g) p 1 False"
    by simp
  also have "\<dots> = Some (Ok ((chunks @ [elem]) @ [field_value g] @ map field_value gs))"
    by (rule Cons.IH [OF gs])
  finally show ?case by simp
qed

lemma split_composite:
  assumes "list_all field_ok (f # fs)"
  shows "SplitBytes (composite (f # fs) @ t) = Some (Ok (map field_value (f # fs)))"
proof -
  from assms have f: "field_ok f" and fs: "list_all field_ok fs" by simp_all
  let ?tl = "concat (map (\<lambda>g. CHR '','' # field_text g) fs) @ '')'' @ t"
  have tl: "?tl \<noteq> [] \<and> (hd ?tl = CHR '','' \<or> hd ?tl = CHR '')'')" by (cases fs) auto
  from run_field [OF f _ _ _ _, of ?tl "CHR 0x00" 1 "[]" "[]"] tl
  obtain p where a: "SplitBytes_loop \<lparr>buf = [] @ field_text f @ ?tl, pos = length ([]::bytes)\<rparr> [] [] (CHR 0x00) 1 False =
      SplitBytes_loop \<lparr>buf = [] @ field_text f @ ?tl, pos = length ([]::bytes) + length (field_text f)\<rparr>
        [] (field_value f) p 1 False"
    by auto
  have "SplitBytes (composite (f # fs) @ t) =
        SplitBytes_loop \<lparr>buf = [] @ field_text f @ ?tl, pos = length ([]::bytes)\<rparr> [] [] (CHR 0x00) 1 False"
    by (simp add: SplitBytes_def NewReader_def)
  also note a
  also have "SplitBytes_loop \<lparr>buf = [] @ field_text f @ ?tl, pos = length ([]::bytes) + length (field_text f)\<rparr>
        [] (field_value f) p 1 False =
      SplitBytes_loop \<lparr>buf = field_text f @ ?tl, pos = length (field_text f)\<rparr> [] (field_value f) p 1 False"
    by simp
  also have "\<dots> = Some (Ok ([] @ [field_value f] @ map field_value fs))"
    by (rule run_fields [OF fs])
  finally show ?thesis by simp
qed

lemma SplitBytes_loop_None:
  assumes "depth \<noteq> 0" and "CHR '')'' \<notin> set (drop (pos r) (buf r))"
  shows "SplitBytes_loop r chunks elem prev depth quoted = None"
proof (rule ccontr)
  assume "SplitBytes_loop r chunks elem prev depth quoted \<noteq> None"
  then obtain res where "SplitBytes_loop r chunks elem prev depth quoted = Some res" by auto
  from SplitBytes_loop_Some [OF this] assms show False by simp
qed

lemma escaped_backslash_never_returns:
  "SplitBytes [CHR ''('', dquote, CHR ''a'', bslash, bslash, dquote, CHR '')''] = None"
proof -
  let ?b = "[dquote, CHR ''a'', bslash, bslash, dquote, CHR '')'']"
  have b0: "SplitBytes_body \<lparr>buf = ?b, pos = 0\<rparr> [] [] (CHR 0x00) 1 False =
      Inr (\<lparr>buf = ?b, pos = 1\<rparr>, [], [], dquote, 1, True)"
    by code_simp
  have b1: "SplitBytes_body \<lparr>buf = ?b, pos = 1\<rparr> [] [] dquote 1 True =
      Inr (\<lparr>buf = ?b, pos = 2\<rparr>, [], ''a'', CHR ''a'', 1, True)"
    by code_simp
  have b2: "SplitBytes_body \<lparr>buf = ?b, pos = 2\<rparr> [] ''a'' (CHR ''a'') 1 True =
      Inr (\<lparr>buf = ?b, pos = 3\<rparr>, [], [CHR ''a'', bslash], bslash, 1, True)"
    by code_simp
  have b3: "SplitBytes_body \<lparr>buf = ?b, pos = 3\<rparr> [] [CHR ''a'', bslash] bslash 1 True =
      Inr (\<lparr>buf = ?b, pos = 4\<rparr>, [], [CHR ''a'', bslash, bslash], bslash, 1, True)"
    by code_simp
  have b4: "SplitBytes_body \<lparr>buf = ?b, pos = 4\<rparr> [] [CHR ''a'', bslash, bslash] bslash 1 True =
      Inr (\<lparr>buf = ?b, pos = 5\<rparr>, [], [CHR ''a'', bslash, bslash, dquote], dquote, 1, True)"
    by code_simp
  have b5: "SplitBytes_body \<lparr>buf = ?b, pos = 5\<rparr> [] [CHR ''a'', bslash, bslash, dquote] dquote 1 True =
      Inr (\<lparr>buf = ?b, pos = 6\<rparr>, [], [CHR ''a'', bslash, bslash, dquote, CHR '')''], CHR '')'', 1, True)"
    by code_simp
  have "SplitBytes (CHR ''('' # ?b) = SplitBytes_loop \<lparr>buf = ?b, pos = 0\<rparr> [] [] (CHR 0x00) 1 False"
    by (simp add: SplitBytes_def NewReader_def)
  also have "\<dots> = SplitBytes_loop \<lparr>buf = ?b, pos = 1\<rparr> [] [] dquote 1 True"
    by (rule SplitBytes_loop_step [OF _ b0]) simp
  also have "\<dots> = SplitBytes_loop \<lparr>buf = ?b, pos = 2\<rparr> [] ''a'' (CHR ''a'') 1 True"
    by (rule SplitBytes_loop_step [OF _ b1]) simp
  also have "\<dots> = SplitBytes_loop \<lparr>buf = ?b, pos = 3\<rparr> [] [CHR ''a'', bslash] bslash 1 True"
    by (rule SplitBytes_loop_step [OF _ b2]) simp
  also have "\<dots> = SplitBytes_loop \<lparr>buf = ?b, pos = 4\<rparr> [] [CHR ''a'', bslash, bslash] bslash 1 True"
    by (rule SplitBytes_loop_step [OF _ b3]) simp
  also have "\<dots> = SplitBytes_loop \<lparr>buf = ?b, pos = 5\<rparr> [] [CHR ''a'', bslash, bslash, dquote] dquote 1 True"
    by (rule SplitBytes_loop_step [OF _ b4]) simp
  also have "\<dots> = SplitBytes_loop \<lparr>buf = ?b, pos = 6\<rparr> []
      [CHR ''a'', bslash, bslash, dquote, CHR '')''] (CHR '')'') 1 True"
    by (rule SplitBytes_loop_step [OF _ b5]) simp
  also have "\<dots> = None"
    by (rule SplitBytes_loop_None) simp_all
  finally show ?thesis .
qed

section \<open>Properties\<close>

subsection \<open>The quoted element\<close>

text \<open>
  C1: for every buffer \<open>b\<close> and every value \<open>v\<close>, the fragment that
  \<^verbatim>\<open>AppendArrayQuotedBytes(b, v)\<close> appends begins with a double quote at offset \<open>length b\<close>
  and leaves \<open>b\<close> as it was; whatever follows the fragment, the loop of the quoted-element
  branch of \<^verbatim>\<open>parseArray\<close>, entered behind that quote, stops behind the fragment with the
  element \<open>v\<close>. So the one-element array made of the fragment parses to \<open>v\<close>.
\<close>

theorem AppendArrayQuotedBytes_roundtrip:
  "take (length b) (AppendArrayQuotedBytes b v) = b \<and>
   AppendArrayQuotedBytes b v ! length b = dquote \<and>
   quoted_loop (AppendArrayQuotedBytes b v @ rest) (length b + 1) [] False =
     Found v (length (AppendArrayQuotedBytes b v)) \<and>
   parseArray (AppendArrayQuotedBytes ''{'' v @ ''}'') '','' = Ok ([1], [Some v])"
proof -
  have "quoted_loop (AppendArrayQuotedBytes b v @ rest) (length b + 1) [] False =
          Found v (length (AppendArrayQuotedBytes b v))"
    using quoted_loop_escaped [of "b @ [dquote]" v rest "[]"]
    by (simp add: AppendArrayQuotedBytes_escaped)
  then show ?thesis
    by (simp add: parse_fragment) (simp add: AppendArrayQuotedBytes_escaped nth_append)
qed

theorem AppendArrayQuotedBytes_roundtrip_witness:
  "AppendArrayQuotedBytes ''{1,'' [CHR ''a'', dquote, bslash, CHR ''b''] =
     [CHR ''{'', CHR ''1'', CHR '','', dquote, CHR ''a'', bslash, dquote, bslash, bslash,
      CHR ''b'', dquote] \<and>
   quoted_loop (AppendArrayQuotedBytes ''{1,'' [CHR ''a'', dquote, bslash, CHR ''b''] @ '',2}'')
       (length ''{1,'' + 1) [] False =
     Found [CHR ''a'', dquote, bslash, CHR ''b'']
       (length (AppendArrayQuotedBytes ''{1,'' [CHR ''a'', dquote, bslash, CHR ''b'']))"
proof -
  have "AppendArrayQuotedBytes ''{1,'' [CHR ''a'', dquote, bslash, CHR ''b''] =
     [CHR ''{'', CHR ''1'', CHR '','', dquote, CHR ''a'', bslash, dquote, bslash, bslash,
      CHR ''b'', dquote]"
    by code_simp
  with AppendArrayQuotedBytes_roundtrip
    [of "''{1,''" "[CHR ''a'', dquote, bslash, CHR ''b'']" "'',2}''"]
  show ?thesis by blast
qed

subsection \<open>\<^verbatim>\<open>parseArray\<close>\<close>

text \<open>
  C2: \<^verbatim>\<open>parseArray\<close> is not total. On \<^verbatim>\<open>{1}}\<close> the first \<^verbatim>\<open>}\<close> brings \<open>depth\<close> to zero and
  the second one runs \<^verbatim>\<open>dims[depth-1]++\<close> with the index \<open>-1\<close>; on \<^verbatim>\<open>{1,{2}}\<close> the inner
  \<^verbatim>\<open>{\<close> runs \<^verbatim>\<open>dims[depth-1] = 0\<close> with the index \<open>1\<close> on a \<open>dims\<close> of length \<open>1\<close>. Both calls
  panic with an index out of range.
\<close>

theorem parseArray_panics:
  "parseArray ''{1}}'' '','' = Panic (IndexOutOfRange (- 1) 1) \<and>
   parseArray ''{1,{2}}'' '','' = Panic (IndexOutOfRange 1 1)"
  by code_simp

text \<open>
  C4: for every rectangular literal \<open>x\<close> with the dimensions \<open>ds\<close>, at least one,
  \<^verbatim>\<open>parseArray\<close> with the comma as delimiter returns, for the text of \<open>x\<close>, the dimensions
  \<open>ds\<close> and the elements of \<open>x\<close> from left to right (row-major order). At
  \<^verbatim>\<open>{{1,2},{3,4}}\<close> these are the dimensions \<open>[2, 2]\<close> and the elements \<open>1\<close>, \<open>2\<close>, \<open>3\<close>, \<open>4\<close>.
\<close>

theorem parseArray_nested:
  assumes x: "shaped ds x" and ds: "ds \<noteq> []"
  shows "parseArray (render x) '','' = Ok (ds, flat x)"
proof -
  let ?h = "length ds"
  have r: "render x = replicate ?h (CHR ''{'') @ unbraced x" by (rule render_rest [OF x])
  from ds obtain h' where h: "?h = Suc h'" by (cases ds) auto
  have g: "\<not> (length (render x) < 1 \<or> render x ! 0 \<noteq> CHR ''{'')"
    unfolding r h by simp
  from rest_hd [OF x] have o: "Open_loop (render x) 0 0 = LeftOpen ?h ?h"
    unfolding r using Open_loop_braces [of "unbraced x" 0 ?h 0] by simp
  have "Element_loop (render x) '','' ?h ?h (replicate ?h 0) [] =
        Element_loop (replicate ?h (CHR ''{'') @ unbraced x @ []) '','' (length ([]::nat list) + ?h)
          (length (replicate ?h (CHR ''{''))) ([] @ replicate ?h 0 @ []) []"
    unfolding r by simp
  also have "\<dots> = Delim_loop (replicate ?h (CHR ''{'') @ unbraced x @ []) '','' (length ([]::nat list))
          (length (replicate ?h (CHR ''{'')) + length (unbraced x)) ([] @ ds @ []) ([] @ flat x)"
    by (rule nested [OF x]) (use ds in simp)
  also have "\<dots> = Delim_loop (render x) '','' 0 (length (render x)) ds (flat x)"
    unfolding r by simp
  also have "\<dots> = Close_loop (render x) 0 (length (render x)) ds (flat x)"
    by (subst Delim_loop.simps) simp
  also have "\<dots> = Ok (ds, flat x)"
  proof -
    have "check_dims ds (length (flat x)) None = Ok None"
      using shaped_pos [OF x] by (intro check_dims_divides) (simp add: flat_length [OF x] prod_list_mod)
    then show ?thesis by (subst Close_loop.simps) simp
  qed
  finally show ?thesis using g o by (simp add: parseArray_def)
qed

theorem parseArray_two_by_two:
  "render (Arr [Arr [Plain ''1'', Plain ''2''], Arr [Plain ''3'', Plain ''4'']]) = ''{{1,2},{3,4}}'' \<and>
   parseArray ''{{1,2},{3,4}}'' '','' =
     Ok ([2, 2], [Some ''1'', Some ''2'', Some ''3'', Some ''4''])"
proof -
  let ?x = "Arr [Arr [Plain ''1'', Plain ''2''], Arr [Plain ''3'', Plain ''4'']]"
  have s: "shaped [2, 2] ?x" by (simp add: plain_def)
  have r: "render ?x = ''{{1,2},{3,4}}''" by simp
  have f: "flat ?x = [Some ''1'', Some ''2'', Some ''3'', Some ''4'']" by simp
  from parseArray_nested [OF s] show ?thesis unfolding r f by simp
qed



text \<open>
  C6: when \<^verbatim>\<open>parseArray\<close> returns without an error, every entry of the dimensions is
  positive and divides the number of elements. When the whole input has been read and
  all braces are closed (the \<^verbatim>\<open>Close\<close> loop at the end of the input with \<open>depth = 0\<close>) and
  some entry does not divide the number of elements, the call fails with the error of
  mismatched dimensions; \<^verbatim>\<open>{{1,2},{3}}\<close> does.
\<close>

theorem parseArray_divisible:
  "(parseArray src del = Ok (dims, elems) \<longrightarrow>
      (\<forall>d\<in>set dims. 0 < d \<and> length elems mod d = 0)) \<and>
   (length s \<le> i \<and> (\<forall>d\<in>set ds. 0 < d) \<and> (\<exists>d\<in>set ds. length es mod d \<noteq> 0) \<longrightarrow>
      Close_loop s 0 i ds es = Err MismatchedDimensions) \<and>
   parseArray ''{{1,2},{3}}'' '','' = Err MismatchedDimensions"
proof -
  have a: "parseArray src del = Ok (dims, elems) \<longrightarrow>
      (\<forall>d\<in>set dims. 0 < d \<and> length elems mod d = 0)"
    using parseArray_Ok_check check_dims_Ok by blast
  have b: "length s \<le> i \<and> (\<forall>d\<in>set ds. 0 < d) \<and> (\<exists>d\<in>set ds. length es mod d \<noteq> 0) \<longrightarrow>
      Close_loop s 0 i ds es = Err MismatchedDimensions"
  proof
    assume h: "length s \<le> i \<and> (\<forall>d\<in>set ds. 0 < d) \<and> (\<exists>d\<in>set ds. length es mod d \<noteq> 0)"
    then have "check_dims ds (length es) None = Ok (Some MismatchedDimensions)"
      by (intro check_dims_mismatch) auto
    with h show "Close_loop s 0 i ds es = Err MismatchedDimensions"
      by (subst Close_loop.simps) simp
  qed
  have c: "parseArray ''{{1,2},{3}}'' '','' = Err MismatchedDimensions"
    by code_simp
  from a b c show ?thesis by blast
qed

theorem parseArray_divisible_witness:
  "parseArray ''{{1,2},{3,4}}'' '','' = Ok ([2, 2], [Some ''1'', Some ''2'', Some ''3'', Some ''4'']) \<and>
   (0::nat) < 2 \<and> length [Some ''1'', Some ''2'', Some ''3'', Some ''4''] mod 2 = 0 \<and>
   Close_loop ''{{1,2},{3}}'' 0 11 [2, 1] [Some ''1'', Some ''2'', Some ''3''] =
     Err MismatchedDimensions"
proof -
  have a: "parseArray ''{{1,2},{3,4}}'' '','' =
      Ok ([2, 2], [Some ''1'', Some ''2'', Some ''3'', Some ''4''])"
    by code_simp
  have b: "length ''{{1,2},{3}}'' \<le> 11 \<and> (\<forall>d\<in>set [2, 1::nat]. 0 < d) \<and>
      (\<exists>d\<in>set [2, 1::nat]. length [Some ''1'', Some ''2'', Some ''3''] mod d \<noteq> 0)"
    by simp
  from parseArray_divisible
    [where src = "''{{1,2},{3,4}}''" and del = "'',''" and dims = "[2, 2]"
       and elems = "[Some ''1'', Some ''2'', Some ''3'', Some ''4'']"
       and s = "''{{1,2},{3}}''" and i = 11 and ds = "[2, 1]"
       and es = "[Some ''1'', Some ''2'', Some ''3'']"] a b
  show ?thesis by simp
qed

subsection \<open>\<^verbatim>\<open>ScanLinearArray\<close>\<close>

text \<open>
  C7: \<^verbatim>\<open>ScanLinearArray\<close> hands on the error of \<^verbatim>\<open>parseArray\<close>; when \<^verbatim>\<open>parseArray\<close>
  returns more than one dimension it fails with the error that names the type and shows
  the dimensions, each in square brackets; when \<^verbatim>\<open>parseArray\<close> returns at most one
  dimension it returns the elements of \<^verbatim>\<open>parseArray\<close>.
\<close>

theorem ScanLinearArray_dims:
  "(parseArray src del = Ok (dims, elems) \<and> 1 < length dims \<longrightarrow>
      ScanLinearArray src del typ =
        Err (CannotConvert (concat (map (\<lambda>d. ''['' @ show_nat d @ '']'') dims)) typ)) \<and>
   (parseArray src del = Ok (dims, elems) \<and> length dims \<le> 1 \<longrightarrow>
      ScanLinearArray src del typ = Ok elems) \<and>
   (parseArray src del = Err e \<longrightarrow> ScanLinearArray src del typ = Err e)"
proof -
  have "1 < length dims \<Longrightarrow> dims \<noteq> []" by auto
  then show ?thesis
    by (auto simp: ScanLinearArray_def Replace_Sprint)
qed

theorem ScanLinearArray_dims_witness:
  "ScanLinearArray ''{{1,2},{3,4}}'' '','' ''int4'' = Err (CannotConvert ''[2][2]'' ''int4'') \<and>
   ScanLinearArray ''{1,2,3}'' '','' ''int4'' = Ok [Some ''1'', Some ''2'', Some ''3''] \<and>
   ScanLinearArray ''1,2,3}'' '','' ''int4'' = Err (ArrayExpected (CHR ''{'') 0)"
proof -
  have a: "parseArray ''{{1,2},{3,4}}'' '','' =
      Ok ([2, 2], [Some ''1'', Some ''2'', Some ''3'', Some ''4''])"
    by code_simp
  have b: "parseArray ''{1,2,3}'' '','' = Ok ([3], [Some ''1'', Some ''2'', Some ''3''])"
    by code_simp
  have c: "parseArray ''1,2,3}'' '','' = Err (ArrayExpected (CHR ''{'') 0)"
    by code_simp
  have d: "concat (map (\<lambda>d. ''['' @ show_nat d @ '']'') [2, 2]) = ''[2][2]''"
    by code_simp
  from ScanLinearArray_dims
    [of "''{{1,2},{3,4}}''" "'',''" "[2, 2]" "[Some ''1'', Some ''2'', Some ''3'', Some ''4'']"
        "''int4''"] a d
  have 1: "ScanLinearArray ''{{1,2},{3,4}}'' '','' ''int4'' = Err (CannotConvert ''[2][2]'' ''int4'')"
    by simp
  from ScanLinearArray_dims
    [of "''{1,2,3}''" "'',''" "[3]" "[Some ''1'', Some ''2'', Some ''3'']" "''int4''"] b
  have 2: "ScanLinearArray ''{1,2,3}'' '','' ''int4'' = Ok [Some ''1'', Some ''2'', Some ''3'']"
    by simp
  from ScanLinearArray_dims [of "''1,2,3}''" "'',''" _ _ "''int4''"] c
  have 3: "ScanLinearArray ''1,2,3}'' '','' ''int4'' = Err (ArrayExpected (CHR ''{'') 0)"
    by simp
  from 1 2 3 show ?thesis by simp
qed

subsection \<open>\<^verbatim>\<open>SplitBytes\<close>\<close>

text \<open>
  C3: \<^verbatim>\<open>SplitBytes\<close> does not return on every input. When the input begins with \<^verbatim>\<open>(\<close> and
  no \<^verbatim>\<open>)\<close> follows, \<open>depth\<close> stays \<open>1\<close>: at the end of the input \<^verbatim>\<open>Next\<close> returns
  \<^verbatim>\<open>(0, io.EOF)\<close>, the loop lets \<^verbatim>\<open>io.EOF\<close> pass, appends the zero byte to \<open>elem\<close> and reads
  again, without end.
\<close>

theorem SplitBytes_diverges:
  "CHR '')'' \<notin> set body \<Longrightarrow> SplitBytes (CHR ''('' # body) = None"
proof (rule ccontr)
  assume n: "CHR '')'' \<notin> set body" and "SplitBytes (CHR ''('' # body) \<noteq> None"
  then obtain res where "SplitBytes_loop (NewReader body) [] [] (CHR 0x00) 1 False = Some res"
    by (auto simp: SplitBytes_def)
  from SplitBytes_loop_Some [OF this] n show False by (simp add: NewReader_def)
qed

theorem SplitBytes_diverges_witness:
  "SplitBytes ''('' = None \<and> SplitBytes ''(1,2'' = None \<and> SplitBytes ''(\"'' = None"
  using SplitBytes_diverges [of "[]"] SplitBytes_diverges [of "''1,2''"]
    SplitBytes_diverges [of "''\"''"]
  by simp



text \<open>
  C9: \<^verbatim>\<open>SplitBytes\<close> returns the error that expects \<^verbatim>\<open>(\<close> at offset \<open>0\<close> when the input is
  empty or does not begin with \<^verbatim>\<open>(\<close>, and on no other input: a call on an input that
  begins with \<^verbatim>\<open>(\<close>, if it returns, returns a list of fields and no error (and does not
  panic).
\<close>

theorem SplitBytes_error:
  "(length src < 1 \<or> src ! 0 \<noteq> CHR ''('' \<longrightarrow>
      SplitBytes src = Some (Err (TypeExpected (CHR ''('') 0))) \<and>
   (\<not> (length src < 1 \<or> src ! 0 \<noteq> CHR ''('') \<longrightarrow>
      (\<forall>res. SplitBytes src = Some res \<longrightarrow> (\<exists>chunks. res = Ok chunks)))"
  using SplitBytes_loop_Some by (auto simp: SplitBytes_def)

theorem SplitBytes_error_witness:
  "SplitBytes ''1,2)'' = Some (Err (TypeExpected (CHR ''('') 0)) \<and>
   SplitBytes [] = Some (Err (TypeExpected (CHR ''('') 0)) \<and>
   SplitBytes ''(1,2)'' = Some (Ok [''1'', ''2''])"
proof -
  have a: "SplitBytes ''(1,2)'' = Some (Ok [''1'', ''2''])"
    by code_simp
  from SplitBytes_error [of "''1,2)''"] SplitBytes_error [of "[]"] SplitBytes_error [of "''(1,2)''"] a
  show ?thesis by simp
qed

text \<open>
  C10: the bytes behind the \<^verbatim>\<open>)\<close> that brings \<open>depth\<close> to zero are not read: when
  \<^verbatim>\<open>SplitBytes\<close> returns a list of fields for an input, it returns the same list for that
  input followed by any bytes. It does return on every composite literal whose fields
  are unquoted without comma, closing parenthesis and double quote, or quoted with a
  content that is not empty, holds no double quote and does not end in a backslash:
  it returns the fields, whatever bytes follow the literal.
\<close>

theorem SplitBytes_trailing:
  "(SplitBytes src = Some (Ok chunks) \<longrightarrow> SplitBytes (src @ t) = Some (Ok chunks)) \<and>
   (list_all field_ok (f # fs) \<longrightarrow>
      SplitBytes (composite (f # fs)) = Some (Ok (map field_value (f # fs))) \<and>
      SplitBytes (composite (f # fs) @ t) = Some (Ok (map field_value (f # fs))))"
proof -
  have a: "SplitBytes (src @ t) = Some (Ok chunks)" if a: "SplitBytes src = Some (Ok chunks)"
  proof -
    from a have g: "\<not> (length src < 1 \<or> src ! 0 \<noteq> CHR ''('')"
      by (auto simp: SplitBytes_def split: if_splits)
    with a have l: "SplitBytes_loop (NewReader (drop 1 src)) [] [] (CHR 0x00) 1 False = Some (Ok chunks)"
      by (simp add: SplitBytes_def)
    from g have g': "\<not> (length (src @ t) < 1 \<or> (src @ t) ! 0 \<noteq> CHR ''('')"
      by (auto simp: nth_append)
    from g have "Suc 0 - length src = 0" by (cases src) auto
    then have d: "NewReader (drop 1 (src @ t)) =
        (NewReader (drop 1 src))\<lparr>buf := buf (NewReader (drop 1 src)) @ t\<rparr>"
      by (simp add: NewReader_def)
    from SplitBytes_loop_Some [OF l] have
      "SplitBytes_loop ((NewReader (drop 1 src))\<lparr>buf := buf (NewReader (drop 1 src)) @ t\<rparr>)
         [] [] (CHR 0x00) 1 False = Some (Ok chunks)"
      by blast
    with g' d show ?thesis by (simp add: SplitBytes_def)
  qed
  have b: "SplitBytes (composite (f # fs) @ u) = Some (Ok (map field_value (f # fs)))"
    if "list_all field_ok (f # fs)" for u
    by (rule split_composite [OF that])
  from a b [of "[]"] b [of t] show ?thesis by simp
qed

theorem SplitBytes_trailing_witness:
  "SplitBytes ''(1,2)'' = Some (Ok [''1'', ''2'']) \<and>
   SplitBytes (''(1,2)'' @ '')x,(y'') = Some (Ok [''1'', ''2'']) \<and>
   composite [Bare ''1'', InQuotes ''a,b'', Bare ''3''] = ''(1,\"a,b\",3)'' \<and>
   SplitBytes ''(1,\"a,b\",3)'' = Some (Ok [''1'', ''a,b'', ''3'']) \<and>
   SplitBytes (''(1,\"a,b\",3)'' @ '')\"('') = Some (Ok [''1'', ''a,b'', ''3''])"
proof -
  have a: "SplitBytes ''(1,2)'' = Some (Ok [''1'', ''2''])"
    by code_simp
  have c: "composite [Bare ''1'', InQuotes ''a,b'', Bare ''3''] = ''(1,\"a,b\",3)''"
    by simp
  have k: "list_all field_ok [Bare ''1'', InQuotes ''a,b'', Bare ''3'']"
    by simp
  from SplitBytes_trailing [of "''(1,2)''" "[''1'', ''2'']" "'')x,(y''"] a
  have 1: "SplitBytes (''(1,2)'' @ '')x,(y'') = Some (Ok [''1'', ''2''])"
    by blast
  from SplitBytes_trailing [of _ _ "'')\"(''" "Bare ''1''" "[InQuotes ''a,b'', Bare ''3'']"] k
  have 2: "SplitBytes (composite [Bare ''1'', InQuotes ''a,b'', Bare ''3'']) =
        Some (Ok (map field_value [Bare ''1'', InQuotes ''a,b'', Bare ''3''])) \<and>
      SplitBytes (composite [Bare ''1'', InQuotes ''a,b'', Bare ''3''] @ '')\"('') =
        Some (Ok (map field_value [Bare ''1'', InQuotes ''a,b'', Bare ''3'']))"
    by blast
  from a 1 2 c show ?thesis by simp
qed

text \<open>
  The statement does not hold of every well-formed composite literal. The literal
  \<^verbatim>\<open>("a\\")\<close> has one quoted field, whose content is \<^verbatim>\<open>a\<close> and an escaped backslash.
  \<^verbatim>\<open>SplitBytes\<close> looks one byte back at the closing quote, finds a backslash, and takes
  the quote for an escaped one: the quoted region is not closed and the call does not
  return. Followed by the bytes \<^verbatim>\<open>")\<close> the same literal gives a list of one field.
\<close>

theorem SplitBytes_trailing_counterexample:
  "\<not> (\<forall>fs t. list_all wellformed fs \<longrightarrow>
        SplitBytes (composite fs @ t) = SplitBytes (composite fs))"
proof
  assume h: "\<forall>fs t. list_all wellformed fs \<longrightarrow>
        SplitBytes (composite fs @ t) = SplitBytes (composite fs)"
  let ?fs = "[InQuotes [CHR ''a'', bslash, bslash]]"
  have w: "list_all wellformed ?fs" by simp
  have n: "SplitBytes (composite ?fs) = None"
    using escaped_backslash_never_returns by simp
  have s: "SplitBytes (composite ?fs @ [dquote, CHR '')'']) =
      Some (Ok [[CHR ''a'', bslash, bslash, dquote, CHR '')'']])"
    by code_simp
  from h w have "SplitBytes (composite ?fs @ [dquote, CHR '')'']) = SplitBytes (composite ?fs)"
    by blast
  with n s show False by simp
qed

end
